theory Spec2Isabelle
  imports Main "HOL-Library.Word"
begin

unbundle bit_operations_syntax

section \<open>Machine integers and the environment of the pass\<close>

type_synonym u8 = "8 word"
type_synonym u32 = "32 word"
type_synonym u64 = "64 word"

text \<open>
  What the pass reads from outside: the values \<open>random()\<close> returns, call after call, the
  constant \<open>MAP_SIZE\<close> of \<open>config.h\<close>, and the environment variable \<open>AFL_INST_RATIO\<close>
  (\<open>None\<close> when \<open>getenv\<close> returns \<open>NULL\<close>). \<open>config.h\<close> is not among the sources, so
  \<open>MAP_SIZE\<close> is a parameter here.
\<close>

record pass_env =
  random :: "nat \<Rightarrow> nat"
  MAP_SIZE :: nat
  AFL_INST_RATIO :: "string option"

text \<open>
  What the pass changes as it runs: how many times \<open>random()\<close> has been called, and the
  identity the next created instruction gets.
\<close>

record pass_state =
  rand_calls :: nat
  next_iid :: nat

text \<open>
  Modelled from the spec: \<open>AFL_R\<close> is a macro of \<open>config.h\<close>, which is not among the
  sources. The spec gives it as a draw from the PRNG stream that lies in \<open>[0, x)\<close> and
  advances the stream; the draw is the next value of \<open>random()\<close> reduced modulo \<open>x\<close>.
\<close>

definition AFL_R :: "pass_env \<Rightarrow> nat \<Rightarrow> pass_state \<Rightarrow> nat \<times> pass_state" where
  "AFL_R e x st = (random e (rand_calls st) mod x, st\<lparr>rand_calls := Suc (rand_calls st)\<rparr>)"

section \<open>The intermediate representation the passes rewrite\<close>

datatype gvar = AFLMapPtr | AFLPrevLoc

text \<open>
  An operand. \<open>GlobalVar\<close> is the address of one of the two globals the coverage pass
  declares (\<open>__afl_area_ptr\<close>, \<open>__afl_prev_loc\<close>), \<open>Func\<close> a function of the module by
  name, \<open>InsnRes n\<close> the result of the instruction whose identity is \<open>n\<close>, \<open>OtherVal\<close>
  any operand the passes never look into (arguments, other constants).
\<close>

datatype val =
    ConstantInt32 u32
  | ConstantInt8 u8
  | GlobalVar gvar
  | Func string
  | GlobalStringPtr string
  | NullCharPtr
  | InsnRes nat
  | OtherVal nat

datatype opcode =
    Load | Store | Xor | GetElementPtr | Add | Call | PHI | LandingPad | OtherOp nat

text \<open>
  An instruction: its identity (LLVM's pointer identity), its opcode, its operands and
  whether it carries the \<open>nosanitize\<close> metadata. A \<open>Call\<close> has the called operand first
  and the arguments after it.
\<close>

record insn =
  iid :: nat
  opc :: opcode
  operands :: "val list"
  nosanitize :: bool

type_synonym basic_block = "insn list"

record func =
  fname :: string
  blocks :: "basic_block list"

record module =
  globals :: "string list"
  mfunctions :: "func list"

section \<open>AFLCoverage::runOnModule\<close>

subsection \<open>The instrumentation ratio\<close>

datatype error = FATAL_bad_inst_ratio

definition isspace :: "char \<Rightarrow> bool" where
  "isspace c = (c \<in> set [CHR '' '', CHR 0x09, CHR 0x0A, CHR 0x0B, CHR 0x0C, CHR 0x0D])"

definition isdigit :: "char \<Rightarrow> bool" where
  "isdigit c = (c \<in> set ''0123456789'')"

definition digit_val :: "char \<Rightarrow> nat" where
  "digit_val c = of_char c - of_char (CHR ''0'')"

fun dec_value :: "nat \<Rightarrow> string \<Rightarrow> nat" where
  "dec_value acc [] = acc"
| "dec_value acc (c # cs) = dec_value (10 * acc + digit_val c) cs"

text \<open>
  \<open>sscanf(str, "%u", &x)\<close> of the C library, as glibc on an LP64 target performs it:
  leading white space is skipped; input that ends there is \<open>EOF\<close> (\<open>-1\<close>); an optional
  sign and the longest run of decimal digits are read, and no digit is a failure (\<open>x\<close>
  untouched; the count is written as \<open>0\<close> here, and the pass only tests it against
  \<open>1\<close>); the digits are converted as \<open>strtoul\<close> does (saturating at
  \<open>ULONG_MAX\<close>, negated modulo \<open>2^64\<close> after a minus sign), the result is truncated to
  32 bits and stored, and \<open>1\<close> is returned. What follows the digits is not looked at.
\<close>

definition strtoul_digits :: "bool \<Rightarrow> string \<Rightarrow> u64" where
  "strtoul_digits neg ds =
     (let n = dec_value 0 ds in
      if n \<ge> 2 ^ 64 then - 1
      else if neg then - (of_nat n) else of_nat n)"

definition sscanf_u :: "string \<Rightarrow> u32 \<Rightarrow> int \<times> u32" where
  "sscanf_u str x =
     (case dropWhile isspace str of
        [] \<Rightarrow> (- 1, x)
      | c # cs \<Rightarrow>
          (let neg = (c = CHR ''-'');
               rest = (if c = CHR ''+'' \<or> c = CHR ''-'' then cs else c # cs);
               ds = takeWhile isdigit rest
           in if ds = [] then (0, x) else (1, ucast (strtoul_digits neg ds))))"

text \<open>
  Lines 93 to 102: the ratio is 100 unless \<open>AFL_INST_RATIO\<close> is set; a set value that
  \<open>sscanf\<close> does not convert, or that converts to 0 or to more than 100, is \<open>FATAL\<close>,
  which ends the process.
\<close>

definition decide_inst_ratio :: "string option \<Rightarrow> error + u32" where
  "decide_inst_ratio inst_ratio_str =
     (case inst_ratio_str of
        None \<Rightarrow> Inr 100
      | Some s \<Rightarrow>
          (let (n, inst_ratio) = sscanf_u s 100
           in if n \<noteq> 1 \<or> inst_ratio = 0 \<or> inst_ratio > 100
              then Inl FATAL_bad_inst_ratio
              else Inr inst_ratio))"

text \<open>
  The numbers that are not in \<open>[1, 100]\<close> as written and that the conversion still brings
  into \<open>[1, 100]\<close>: a number from \<open>2^32\<close> up to \<open>2^64 - 1\<close> whose low 32 bits are in
  that range, and a number after a minus sign whose negation modulo \<open>2^64\<close> has such low
  32 bits. (\<open>neg\<close> says that the sign is a minus, \<open>n\<close> is the value of the digits.)
\<close>

definition wraps_into_range :: "bool \<Rightarrow> nat \<Rightarrow> bool" where
  "wraps_into_range neg n =
     (n < 2 ^ 64 \<and>
      (if neg then 0 < n \<and> 1 \<le> (2 ^ 64 - n) mod 2 ^ 32 \<and> (2 ^ 64 - n) mod 2 ^ 32 \<le> 100
       else 2 ^ 32 \<le> n \<and> 1 \<le> n mod 2 ^ 32 \<and> n mod 2 ^ 32 \<le> 100))"

subsection \<open>The code inserted into a basic block\<close>

text \<open>
  \<open>IRBuilder\<close> creating one instruction: it takes the next identity. (\<open>CreateZExt\<close> of
  the loaded \<open>i32\<close> to \<open>i32\<close> returns its operand and creates nothing, so
  \<open>PrevLocCasted\<close> is \<open>PrevLoc\<close>.)
\<close>

definition Create :: "opcode \<Rightarrow> val list \<Rightarrow> bool \<Rightarrow> pass_state \<Rightarrow> insn \<times> pass_state" where
  "Create oc ops meta st =
     (\<lparr>iid = next_iid st, opc = oc, operands = ops, nosanitize = meta\<rparr>,
      st\<lparr>next_iid := Suc (next_iid st)\<rparr>)"

definition CreateZExt32 :: "val \<Rightarrow> val" where
  "CreateZExt32 v = v"

text \<open>
  Lines 131 to 158, for the label \<open>cur_loc\<close>: the eight instructions, in the order the
  builder creates them.
\<close>

definition edge_update :: "u32 \<Rightarrow> pass_state \<Rightarrow> insn list \<times> pass_state" where
  "edge_update cur_loc st0 =
     (let CurLoc = ConstantInt32 cur_loc;
          (PrevLoc, st1) = Create Load [GlobalVar AFLPrevLoc] True st0;
          PrevLocCasted = CreateZExt32 (InsnRes (iid PrevLoc));
          (MapPtr, st2) = Create Load [GlobalVar AFLMapPtr] True st1;
          (XorI, st3) = Create Xor [PrevLocCasted, CurLoc] False st2;
          (MapPtrIdx, st4) =
             Create GetElementPtr [InsnRes (iid MapPtr), InsnRes (iid XorI)] False st3;
          (Counter, st5) = Create Load [InsnRes (iid MapPtrIdx)] True st4;
          (Incr, st6) = Create Add [InsnRes (iid Counter), ConstantInt8 1] False st5;
          (StoreC, st7) =
             Create Store [InsnRes (iid Incr), InsnRes (iid MapPtrIdx)] True st6;
          (StoreP, st8) =
             Create Store [ConstantInt32 (drop_bit 1 cur_loc), GlobalVar AFLPrevLoc] True st7
      in ([PrevLoc, MapPtr, XorI, MapPtrIdx, Counter, Incr, StoreC, StoreP], st8))"

text \<open>
  \<open>BasicBlock::getFirstInsertionPt\<close>: the position after the leading PHI nodes, and
  after the landing pad when one follows them. A well-formed block ends in a terminator,
  so the position is inside the block.
\<close>

definition getFirstInsertionPt :: "basic_block \<Rightarrow> nat" where
  "getFirstInsertionPt bb =
     (let n = length (takeWhile (\<lambda>i. opc i = PHI) bb)
      in if n < length bb \<and> opc (bb ! n) = LandingPad then Suc n else n)"

text \<open>
  The body of the loop over basic blocks (lines 122 to 160). The result says whether the
  block was instrumented, which is what \<open>inst_blocks\<close> counts.
\<close>

definition instrument_block ::
  "pass_env \<Rightarrow> u32 \<Rightarrow> pass_state \<Rightarrow> basic_block \<Rightarrow> (basic_block \<times> bool) \<times> pass_state" where
  "instrument_block e inst_ratio st bb =
     (let IP = getFirstInsertionPt bb;
          (r, st1) = AFL_R e 100 st
      in if r \<ge> unat inst_ratio then ((bb, False), st1)
         else
           (let (l, st2) = AFL_R e (MAP_SIZE e) st1;
                cur_loc = (of_nat l :: u32);
                (code, st3) = edge_update cur_loc st2
            in ((take IP bb @ code @ drop IP bb, True), st3)))"

fun instrument_blocks ::
  "pass_env \<Rightarrow> u32 \<Rightarrow> pass_state \<Rightarrow> basic_block list \<Rightarrow> (basic_block list \<times> nat) \<times> pass_state" where
  "instrument_blocks e inst_ratio st [] = (([], 0), st)"
| "instrument_blocks e inst_ratio st (bb # bbs) =
     (let ((bb', hit), st1) = instrument_block e inst_ratio st bb;
          ((bbs', n), st2) = instrument_blocks e inst_ratio st1 bbs
      in ((bb' # bbs', (if hit then 1 else 0) + n), st2))"

fun instrument_functions ::
  "pass_env \<Rightarrow> u32 \<Rightarrow> pass_state \<Rightarrow> func list \<Rightarrow> (func list \<times> nat) \<times> pass_state" where
  "instrument_functions e inst_ratio st [] = (([], 0), st)"
| "instrument_functions e inst_ratio st (F # Fs) =
     (let ((bbs', n), st1) = instrument_blocks e inst_ratio st (blocks F);
          ((Fs', m), st2) = instrument_functions e inst_ratio st1 Fs
      in ((F\<lparr>blocks := bbs'\<rparr> # Fs', n + m), st2))"

text \<open>
  The pass: the ratio is decided first, the two globals are declared, then every block of
  every function is visited. The banner and the closing message only print. The result
  is the rewritten module with \<open>inst_blocks\<close>, or the fatal error.
\<close>

definition AFLCoverage_runOnModule ::
  "pass_env \<Rightarrow> pass_state \<Rightarrow> module \<Rightarrow> error + ((module \<times> nat) \<times> pass_state)" where
  "AFLCoverage_runOnModule e st M =
     (case decide_inst_ratio (AFL_INST_RATIO e) of
        Inl err \<Rightarrow> Inl err
      | Inr inst_ratio \<Rightarrow>
          (let gs = globals M @ [''__afl_area_ptr'', ''__afl_prev_loc''];
               ((Fs, inst_blocks), st1) = instrument_functions e inst_ratio st (mfunctions M)
           in Inr ((\<lparr>globals = gs, mfunctions = Fs\<rparr>, inst_blocks), st1)))"

text \<open>
  The state of the pass when the loops reach block \<open>k\<close> of function \<open>j\<close>: the
  functions before \<open>j\<close> and the blocks of \<open>j\<close> before \<open>k\<close> have been visited.
\<close>

definition site_state :: "pass_env \<Rightarrow> u32 \<Rightarrow> pass_state \<Rightarrow> func list \<Rightarrow> nat \<Rightarrow> nat \<Rightarrow> pass_state" where
  "site_state e inst_ratio st Fs j k =
     snd (instrument_blocks e inst_ratio
            (snd (instrument_functions e inst_ratio st (take j Fs)))
            (take k (blocks (Fs ! j))))"

section \<open>Running the inserted code\<close>

text \<open>
  The state an instrumented process has at run time. Memory is a partial map from
  addresses to bytes: no byte at an address means that a load or store there faults.
  \<open>__afl_area_ptr\<close> is one global pointer (64 bits wide), \<open>__afl_prev_loc\<close> is
  thread-local, one value for each thread; the shadow stack of execution indexing is one
  stack of frames for each thread. The two globals are kept apart from the byte memory:
  the map is taken not to overlap their storage.
\<close>

type_synonym tid = nat

type_synonym frame = "u32 \<times> string option"

record mstate =
  mem :: "u64 \<Rightarrow> u8 option"
  afl_area_ptr :: u64
  afl_prev_loc :: "tid \<Rightarrow> u32"
  ei_stack :: "tid \<Rightarrow> frame list"

datatype rtval = I8 u8 | I32 u32 | Ptr u64

datatype fault = SegFault | Stuck

datatype location = TLSPrevLoc | GlobMapPtr | Addr u64

type_synonym regs = "nat \<Rightarrow> rtval option"

definition eval_val :: "regs \<Rightarrow> val \<Rightarrow> rtval option" where
  "eval_val rg v =
     (case v of
        ConstantInt32 c \<Rightarrow> Some (I32 c)
      | ConstantInt8 c \<Rightarrow> Some (I8 c)
      | InsnRes n \<Rightarrow> rg n
      | _ \<Rightarrow> None)"

definition resolve_ptr :: "regs \<Rightarrow> val \<Rightarrow> location option" where
  "resolve_ptr rg v =
     (case v of
        GlobalVar AFLPrevLoc \<Rightarrow> Some TLSPrevLoc
      | GlobalVar AFLMapPtr \<Rightarrow> Some GlobMapPtr
      | _ \<Rightarrow> (case eval_val rg v of Some (Ptr a) \<Rightarrow> Some (Addr a) | _ \<Rightarrow> None))"

definition load_from :: "tid \<Rightarrow> mstate \<Rightarrow> location \<Rightarrow> fault + rtval" where
  "load_from t s l =
     (case l of
        TLSPrevLoc \<Rightarrow> Inr (I32 (afl_prev_loc s t))
      | GlobMapPtr \<Rightarrow> Inr (Ptr (afl_area_ptr s))
      | Addr a \<Rightarrow> (case mem s a of None \<Rightarrow> Inl SegFault | Some b \<Rightarrow> Inr (I8 b)))"

definition store_to :: "tid \<Rightarrow> mstate \<Rightarrow> rtval \<Rightarrow> location \<Rightarrow> fault + mstate" where
  "store_to t s v l =
     (case (l, v) of
        (TLSPrevLoc, I32 x) \<Rightarrow> Inr (s\<lparr>afl_prev_loc := (afl_prev_loc s)(t := x)\<rparr>)
      | (GlobMapPtr, Ptr p) \<Rightarrow> Inr (s\<lparr>afl_area_ptr := p\<rparr>)
      | (Addr a, I8 b) \<Rightarrow>
          (case mem s a of
             None \<Rightarrow> Inl SegFault
           | Some _ \<Rightarrow> Inr (s\<lparr>mem := (mem s)(a \<mapsto> b)\<rparr>))
      | _ \<Rightarrow> Inl Stuck)"

text \<open>
  One instruction, run by thread \<open>t\<close>. The \<open>getelementptr\<close> on an \<open>i8*\<close> adds the index,
  sign-extended to the width of a pointer. Opcodes the coverage pass does not create are
  not given a meaning here (\<open>Stuck\<close>).
\<close>

definition exec_insn :: "tid \<Rightarrow> insn \<Rightarrow> mstate \<times> regs \<Rightarrow> fault + (mstate \<times> regs)" where
  "exec_insn t i sr =
     (let (s, rg) = sr in
      case (opc i, operands i) of
        (Load, [p]) \<Rightarrow>
          (case resolve_ptr rg p of
             None \<Rightarrow> Inl Stuck
           | Some l \<Rightarrow>
               (case load_from t s l of
                  Inl f \<Rightarrow> Inl f
                | Inr v \<Rightarrow> Inr (s, rg(iid i \<mapsto> v))))
      | (Store, [v, p]) \<Rightarrow>
          (case (eval_val rg v, resolve_ptr rg p) of
             (Some x, Some l) \<Rightarrow>
               (case store_to t s x l of Inl f \<Rightarrow> Inl f | Inr s' \<Rightarrow> Inr (s', rg))
           | _ \<Rightarrow> Inl Stuck)
      | (Xor, [a, b]) \<Rightarrow>
          (case (eval_val rg a, eval_val rg b) of
             (Some (I32 x), Some (I32 y)) \<Rightarrow> Inr (s, rg(iid i \<mapsto> I32 (x XOR y)))
           | _ \<Rightarrow> Inl Stuck)
      | (GetElementPtr, [p, ix]) \<Rightarrow>
          (case (eval_val rg p, eval_val rg ix) of
             (Some (Ptr a), Some (I32 x)) \<Rightarrow> Inr (s, rg(iid i \<mapsto> Ptr (a + scast x)))
           | _ \<Rightarrow> Inl Stuck)
      | (Add, [a, b]) \<Rightarrow>
          (case (eval_val rg a, eval_val rg b) of
             (Some (I8 x), Some (I8 y)) \<Rightarrow> Inr (s, rg(iid i \<mapsto> I8 (x + y)))
           | _ \<Rightarrow> Inl Stuck)
      | _ \<Rightarrow> Inl Stuck)"

fun exec_insns :: "tid \<Rightarrow> insn list \<Rightarrow> mstate \<times> regs \<Rightarrow> fault + (mstate \<times> regs)" where
  "exec_insns t [] sr = Inr sr"
| "exec_insns t (i # is) sr =
     (case exec_insn t i sr of Inl f \<Rightarrow> Inl f | Inr sr' \<Rightarrow> exec_insns t is sr')"

text \<open>
  The slot of the coverage map an edge update of label \<open>cur_loc\<close> by thread \<open>t\<close> touches:
  its index and its address.
\<close>

definition edge_id :: "tid \<Rightarrow> u32 \<Rightarrow> mstate \<Rightarrow> u32" where
  "edge_id t cur_loc s = afl_prev_loc s t XOR cur_loc"

definition slot_addr :: "tid \<Rightarrow> u32 \<Rightarrow> mstate \<Rightarrow> u64" where
  "slot_addr t cur_loc s = afl_area_ptr s + scast (edge_id t cur_loc s)"

text \<open>The run of the code the pass inserts for label \<open>cur_loc\<close>, as far as the state goes.\<close>

definition run_edge_update :: "tid \<Rightarrow> u32 \<Rightarrow> pass_state \<Rightarrow> mstate \<Rightarrow> regs \<Rightarrow> fault + mstate" where
  "run_edge_update t cur_loc st s rg =
     (case exec_insns t (fst (edge_update cur_loc st)) (s, rg) of
        Inl f \<Rightarrow> Inl f
      | Inr (s', rg') \<Rightarrow> Inr s')"

section \<open>ExecutionIndexing::runOnModule\<close>

definition getCalledFunction :: "insn \<Rightarrow> string option" where
  "getCalledFunction i = (case operands i of Func f # _ \<Rightarrow> Some f | _ \<Rightarrow> None)"

definition arg_operands :: "insn \<Rightarrow> val list" where
  "arg_operands i = tl (operands i)"

definition hasName :: "string \<Rightarrow> bool" where
  "hasName f = (f \<noteq> [])"

definition getFunction :: "module \<Rightarrow> string \<Rightarrow> string option" where
  "getFunction M n = map_option fname (find (\<lambda>F. fname F = n) (mfunctions M))"

text \<open>
  \<open>Call->replaceAllUsesWith(WrappedCall)\<close> seen from one user: every operand that is the
  result of the instruction \<open>old\<close> becomes the result of the instruction \<open>new\<close>.
\<close>

definition replaceAllUsesWith :: "nat \<Rightarrow> nat \<Rightarrow> insn \<Rightarrow> insn" where
  "replaceAllUsesWith old new i =
     i\<lparr>operands := map (\<lambda>v. if v = InsnRes old then InsnRes new else v) (operands i)\<rparr>"

text \<open>
  The \<open>while\<close> loop over one basic block (lines 233 to 273). \<open>dn\<close> holds the instructions
  before the iterator \<open>it\<close>, the last argument those from \<open>it\<close> on; \<open>pre\<close> and \<open>post\<close>
  are the other blocks of the function, which the replacement of uses reaches as well.
  \<open>FRead\<close> is \<open>M.getFunction("fread")\<close>. The name string \<open>CreateGlobalStringPtr\<close> makes
  is a constant, not an instruction.
\<close>

fun ei_while ::
  "pass_env \<Rightarrow> string option \<Rightarrow> pass_state \<times> basic_block list \<times> basic_block list \<Rightarrow>
   insn list \<Rightarrow> insn list \<Rightarrow> (pass_state \<times> basic_block list \<times> basic_block list) \<times> insn list" where
  "ei_while e FRead ctx dn [] = (ctx, dn)"
| "ei_while e FRead (st, pre, post) dn (Insn # rest) =
     (if opc Insn = Call then
        (let CalledFunc = getCalledFunction Insn;
             (r, st1) = AFL_R e (MAP_SIZE e) st;
             call_site_id = (of_nat r :: u32);
             CalledFuncName =
               (case CalledFunc of
                  Some f \<Rightarrow> if hasName f then GlobalStringPtr f else NullCharPtr
                | None \<Rightarrow> NullCharPtr);
             (EIPush, st2) =
               Create Call [Func ''__afl_ei_push_call'', ConstantInt32 call_site_id,
                            CalledFuncName] False st1
         in if FRead \<noteq> None \<and> FRead = getCalledFunction Insn then
              (let args = arg_operands Insn;
                   (WrappedCall, st3) = Create Call (Func ''__afl_ei_fread'' # args) False st2;
                   rauw = replaceAllUsesWith (iid Insn) (iid WrappedCall);
                   (EIPop, st4) = Create Call [Func ''__afl_ei_pop_return''] False st3
               in ei_while e FRead (st4, map (map rauw) pre, map (map rauw) post)
                    (map rauw (dn @ [EIPush, WrappedCall]) @ [EIPop]) (map rauw rest))
            else
              (let (EIPop, st3) = Create Call [Func ''__afl_ei_pop_return''] False st2
               in ei_while e FRead (st3, pre, post) (dn @ [EIPush, Insn, EIPop]) rest))
      else ei_while e FRead (st, pre, post) (dn @ [Insn]) rest)"

text \<open>
  The loop over the blocks of one function, by the position \<open>k\<close> of the block: the blocks
  before and after it are the rest of the function.
\<close>

definition ei_block ::
  "pass_env \<Rightarrow> string option \<Rightarrow> nat \<Rightarrow> pass_state \<times> basic_block list \<Rightarrow>
   pass_state \<times> basic_block list" where
  "ei_block e FRead k sb =
     (let (st, bbs) = sb;
          ((st', pre, post), BB') =
             ei_while e FRead (st, take k bbs, drop (Suc k) bbs) [] (bbs ! k)
      in (st', pre @ [BB'] @ post))"

definition ei_function :: "pass_env \<Rightarrow> string option \<Rightarrow> pass_state \<Rightarrow> func \<Rightarrow> func \<times> pass_state" where
  "ei_function e FRead st F =
     (let (st', bbs') = fold (ei_block e FRead) [0..<length (blocks F)] (st, blocks F)
      in (F\<lparr>blocks := bbs'\<rparr>, st'))"

fun ei_functions ::
  "pass_env \<Rightarrow> string option \<Rightarrow> pass_state \<Rightarrow> func list \<Rightarrow> func list \<times> pass_state" where
  "ei_functions e FRead st [] = ([], st)"
| "ei_functions e FRead st (F # Fs) =
     (let (F', st1) = ei_function e FRead st F;
          (Fs', st2) = ei_functions e FRead st1 Fs
      in (F' # Fs', st2))"

text \<open>
  The pass: the runtime functions are declared (the wrapper only when the module has
  \<open>fread\<close>), then every function of the module is visited, the new declarations among
  them; they have no blocks.
\<close>

definition ExecutionIndexing_runOnModule :: "pass_env \<Rightarrow> pass_state \<Rightarrow> module \<Rightarrow> module \<times> pass_state" where
  "ExecutionIndexing_runOnModule e st M =
     (let EIPushCallFunc = \<lparr>fname = ''__afl_ei_push_call'', blocks = []\<rparr>;
          EIPopReturnFunc = \<lparr>fname = ''__afl_ei_pop_return'', blocks = []\<rparr>;
          FRead = getFunction M ''fread'';
          WrappedFRead =
            (if FRead = None then [] else [\<lparr>fname = ''__afl_ei_fread'', blocks = []\<rparr>]);
          (Fs, st') =
            ei_functions e FRead st
              (mfunctions M @ [EIPushCallFunc, EIPopReturnFunc] @ WrappedFRead)
      in (\<lparr>globals = globals M, mfunctions = Fs\<rparr>, st'))"

subsection \<open>The shadow stack at run time\<close>

text \<open>
  Modelled from the spec: the runtime functions \<open>__afl_ei_push_call\<close> and
  \<open>__afl_ei_pop_return\<close> are only declared by the pass; their bodies are not among the
  sources. By the spec the first pushes the frame of call-site id and callee name onto the
  calling thread's stack and the second pops exactly one frame; the spec does not say what
  a pop of the empty stack does, so it has no result here.
\<close>

definition afl_ei_push_call :: "u32 \<Rightarrow> string option \<Rightarrow> frame list \<Rightarrow> frame list" where
  "afl_ei_push_call call_site_id callee_name stk = (call_site_id, callee_name) # stk"

definition afl_ei_pop_return :: "frame list \<Rightarrow> frame list option" where
  "afl_ei_pop_return stk = (case stk of [] \<Rightarrow> None | fr # stk' \<Rightarrow> Some stk')"

definition is_call_to :: "string \<Rightarrow> insn \<Rightarrow> bool" where
  "is_call_to f i = (opc i = Call \<and> getCalledFunction i = Some f)"

definition name_arg :: "val \<Rightarrow> string option" where
  "name_arg v = (case v of GlobalStringPtr f \<Rightarrow> Some f | _ \<Rightarrow> None)"

text \<open>
  What the instructions of a block do to the shadow stack of the thread that runs them.
  \<open>callee c stk\<close> is the stack with which the function called at \<open>c\<close> returns when it is
  entered with \<open>stk\<close>, and \<open>None\<close> when it does not return normally.
\<close>

fun run_calls ::
  "(insn \<Rightarrow> frame list \<Rightarrow> frame list option) \<Rightarrow> insn list \<Rightarrow> frame list \<Rightarrow> frame list option" where
  "run_calls callee [] stk = Some stk"
| "run_calls callee (i # is) stk =
     (if is_call_to ''__afl_ei_push_call'' i then
        (case arg_operands i of
           [ConstantInt32 call_site_id, nm] \<Rightarrow>
             run_calls callee is (afl_ei_push_call call_site_id (name_arg nm) stk)
         | _ \<Rightarrow> None)
      else if is_call_to ''__afl_ei_pop_return'' i then
        (case afl_ei_pop_return stk of None \<Rightarrow> None | Some stk' \<Rightarrow> run_calls callee is stk')
      else if opc i = Call then
        (case callee i stk of None \<Rightarrow> None | Some stk' \<Rightarrow> run_calls callee is stk')
      else run_calls callee is stk)"

section \<open>What the spec asks of the rewritten blocks\<close>

text \<open>
  The properties of the execution-indexing pass are stated with the predicates of this
  section. They follow the words of the spec, not the code of the pass, and are compared
  with the pass below.
\<close>

text \<open>Redirecting the uses of instruction results along \<open>\<sigma>\<close>, in one instruction.\<close>

definition redirect :: "(nat \<Rightarrow> nat) \<Rightarrow> val \<Rightarrow> val" where
  "redirect \<sigma> v = (case v of InsnRes n \<Rightarrow> InsnRes (\<sigma> n) | _ \<Rightarrow> v)"

definition redirect_uses :: "(nat \<Rightarrow> nat) \<Rightarrow> insn \<Rightarrow> insn" where
  "redirect_uses \<sigma> i = i\<lparr>operands := map (redirect \<sigma>) (operands i)\<rparr>"

text \<open>
  \<open>p\<close> is a push of the frame of the call \<open>c\<close>: a call of \<open>__afl_ei_push_call\<close> with a
  call-site id below \<open>MAP_SIZE\<close> and the name of the function \<open>c\<close> calls, or the null
  pointer when \<open>c\<close> names no function. \<open>q\<close> is a pop: a call of \<open>__afl_ei_pop_return\<close>
  without arguments.
\<close>

definition spec_callee_name :: "insn \<Rightarrow> val" where
  "spec_callee_name c =
     (case getCalledFunction c of
        Some g \<Rightarrow> if g = [] then NullCharPtr else GlobalStringPtr g
      | None \<Rightarrow> NullCharPtr)"

definition spec_is_push_for :: "nat \<Rightarrow> insn \<Rightarrow> insn \<Rightarrow> bool" where
  "spec_is_push_for msz c p =
     (opc p = Call \<and> length (operands p) = 3
      \<and> operands p ! 0 = Func ''__afl_ei_push_call''
      \<and> (case operands p ! 1 of ConstantInt32 cid \<Rightarrow> unat cid < msz | _ \<Rightarrow> False)
      \<and> operands p ! 2 = spec_callee_name c)"

definition spec_is_pop :: "insn \<Rightarrow> bool" where
  "spec_is_pop q = (opc q = Call \<and> operands q = [Func ''__afl_ei_pop_return''])"

text \<open>
  \<open>i'\<close> is the instruction \<open>i\<close>, up to its operands: the same identity, opcode and called
  function.
\<close>

definition spec_same_insn :: "insn \<Rightarrow> insn \<Rightarrow> bool" where
  "spec_same_insn i i' =
     (iid i' = iid i \<and> opc i' = opc i \<and> getCalledFunction i' = getCalledFunction i)"

text \<open>
  The block \<open>out\<close> is the block \<open>inp\<close> with every call bracketed: each instruction that is
  not a call stands as it was, and each call has become a push, then the call itself or a
  call of the wrapper \<open>__afl_ei_fread\<close>, then a pop, with nothing in between.
\<close>

fun spec_bracketed :: "nat \<Rightarrow> insn list \<Rightarrow> insn list \<Rightarrow> bool" where
  "spec_bracketed msz [] out = (out = [])"
| "spec_bracketed msz (i # is) out =
     (if opc i = Call then
        (case out of
           p # c # q # out' \<Rightarrow>
             spec_is_push_for msz i p
             \<and> (spec_same_insn i c \<or> is_call_to ''__afl_ei_fread'' c)
             \<and> spec_is_pop q
             \<and> spec_bracketed msz is out'
         | _ \<Rightarrow> False)
      else
        (case out of
           i' # out' \<Rightarrow> spec_same_insn i i' \<and> spec_bracketed msz is out'
         | _ \<Rightarrow> False))"

text \<open>
  The block \<open>out\<close> is the block \<open>inp\<close> with the reads rerouted, the uses redirected along
  \<open>\<sigma>\<close> and every call bracketed: a call of \<open>FRead\<close> has become a call of the wrapper with
  the arguments of the original, and its identity is where \<open>\<sigma>\<close> sends the identity of the
  original; every other instruction is itself with its operands redirected.
\<close>

definition is_fread_call :: "string option \<Rightarrow> insn \<Rightarrow> bool" where
  "is_fread_call FRead i = (opc i = Call \<and> FRead \<noteq> None \<and> FRead = getCalledFunction i)"

definition spec_is_wrapper_of :: "(nat \<Rightarrow> nat) \<Rightarrow> insn \<Rightarrow> insn \<Rightarrow> bool" where
  "spec_is_wrapper_of \<sigma> c w =
     (opc w = Call
      \<and> operands w = Func ''__afl_ei_fread'' # map (redirect \<sigma>) (arg_operands c)
      \<and> iid w = \<sigma> (iid c))"

fun spec_rerouted :: "nat \<Rightarrow> string option \<Rightarrow> (nat \<Rightarrow> nat) \<Rightarrow> insn list \<Rightarrow> insn list \<Rightarrow> bool" where
  "spec_rerouted msz FRead \<sigma> [] out = (out = [])"
| "spec_rerouted msz FRead \<sigma> (i # is) out =
     (if opc i = Call then
        (case out of
           p # c # q # out' \<Rightarrow>
             spec_is_push_for msz i p
             \<and> (if is_fread_call FRead i then spec_is_wrapper_of \<sigma> i c
                 else c = redirect_uses \<sigma> i)
             \<and> spec_is_pop q
             \<and> spec_rerouted msz FRead \<sigma> is out'
         | _ \<Rightarrow> False)
      else
        (case out of
           i' # out' \<Rightarrow> i' = redirect_uses \<sigma> i \<and> spec_rerouted msz FRead \<sigma> is out'
         | _ \<Rightarrow> False))"

text \<open>The identities of the calls of \<open>FRead\<close> in a list of blocks, and all operands.\<close>

definition fread_ids :: "string option \<Rightarrow> basic_block list \<Rightarrow> nat set" where
  "fread_ids FRead bbs = iid ` {i \<in> set (concat bbs). is_fread_call FRead i}"

definition all_operands :: "basic_block list \<Rightarrow> val set" where
  "all_operands bbs = (\<Union>i \<in> set (concat bbs). set (operands i))"

section \<open>Concrete processes and inputs\<close>

text \<open>
  A pass that has created nothing yet, a thread with no instruction results, a process to
  which no map was attached (null pointer, nothing mapped), and a process with a zeroed
  map of 65536 bytes attached at address \<open>0x10000\<close>.
\<close>

definition fresh_pass :: pass_state where
  "fresh_pass = \<lparr>rand_calls = 0, next_iid = 0\<rparr>"

definition no_regs :: regs where
  "no_regs = (\<lambda>n. None)"

definition unattached :: mstate where
  "unattached =
     \<lparr>mem = (\<lambda>a. None), afl_area_ptr = 0, afl_prev_loc = (\<lambda>t. 0), ei_stack = (\<lambda>t. [])\<rparr>"

definition attached :: mstate where
  "attached =
     \<lparr>mem = (\<lambda>a. if 0x10000 \<le> a \<and> a < 0x20000 then Some 0 else None),
      afl_area_ptr = 0x10000, afl_prev_loc = (\<lambda>t. 0), ei_stack = (\<lambda>t. [])\<rparr>"

text \<open>
  The states of the attached process after a block of label 1 ran in it, and after a
  second block of label 1 ran next.
\<close>

definition label1_after_A :: mstate where
  "label1_after_A = attached\<lparr>mem := (mem attached)(0x10001 \<mapsto> 1),
                   afl_prev_loc := (afl_prev_loc attached)(0 := 0)\<rparr>"

definition label1_after_B :: mstate where
  "label1_after_B = label1_after_A\<lparr>mem := (mem label1_after_A)(0x10001 \<mapsto> 2),
                   afl_prev_loc := (afl_prev_loc label1_after_A)(0 := 0)\<rparr>"

text \<open>
  An environment with a map of 65536 bytes and no ratio set, the same with
  \<open>AFL_INST_RATIO=50abc\<close>, and a module of one function of one block, a single
  terminator.
\<close>

definition env_default :: pass_env where
  "env_default = \<lparr>random = (\<lambda>n. 70000 + n), MAP_SIZE = 65536, AFL_INST_RATIO = None\<rparr>"

definition env_ratio_50abc :: pass_env where
  "env_ratio_50abc = env_default\<lparr>AFL_INST_RATIO := Some ''50abc''\<rparr>"

definition ret_insn :: insn where
  "ret_insn = \<lparr>iid = 0, opc = OtherOp 0, operands = [], nosanitize = False\<rparr>"

definition one_block_module :: module where
  "one_block_module = \<lparr>globals = [], mfunctions = [\<lparr>fname = ''main'', blocks = [[ret_insn]]\<rparr>]\<rparr>"

definition started_pass :: pass_state where
  "started_pass = \<lparr>rand_calls = 0, next_iid = 1\<rparr>"

text \<open>
  An environment with \<open>AFL_INST_RATIO=50\<close> whose \<open>random()\<close> gives 70000, 70075,
  70150, ..., and a module of one function of two blocks.
\<close>

definition env_ratio_50 :: pass_env where
  "env_ratio_50 = \<lparr>random = (\<lambda>n. 70000 + 75 * n), MAP_SIZE = 65536, AFL_INST_RATIO = Some ''50''\<rparr>"

definition two_block_module :: module where
  "two_block_module =
     \<lparr>globals = [], mfunctions = [\<lparr>fname = ''main'', blocks = [[ret_insn], [ret_insn]]\<rparr>]\<rparr>"

text \<open>
  A module that reads: \<open>main\<close> calls \<open>foo\<close>, then \<open>fread\<close>, then uses the number of
  items read and returns; and the module the execution-indexing pass makes of it when
  the instruction identities 0 to 3 are taken.
\<close>

definition call_foo :: insn where
  "call_foo = \<lparr>iid = 0, opc = Call, operands = [Func ''foo'', OtherVal 0], nosanitize = False\<rparr>"
definition call_fread :: insn where
  "call_fread = \<lparr>iid = 1, opc = Call,
     operands = [Func ''fread'', OtherVal 1, OtherVal 2, OtherVal 3, OtherVal 4],
     nosanitize = False\<rparr>"
definition use_nbytes :: insn where
  "use_nbytes = \<lparr>iid = 2, opc = OtherOp 1, operands = [InsnRes 1, OtherVal 5], nosanitize = False\<rparr>"
definition ret_nbytes :: insn where
  "ret_nbytes = \<lparr>iid = 3, opc = OtherOp 0, operands = [InsnRes 2], nosanitize = False\<rparr>"
definition reader_module :: module where
  "reader_module =
     \<lparr>globals = [],
      mfunctions = [\<lparr>fname = ''main'', blocks = [[call_foo, call_fread, use_nbytes, ret_nbytes]]\<rparr>,
                    \<lparr>fname = ''foo'', blocks = []\<rparr>,
                    \<lparr>fname = ''fread'', blocks = []\<rparr>]\<rparr>"
definition reader_pass :: pass_state where
  "reader_pass = \<lparr>rand_calls = 0, next_iid = 4\<rparr>"

definition reader_module_indexed :: module where
  "reader_module_indexed =
     \<lparr>globals = [],
      mfunctions =
        [\<lparr>fname = ''main'',
          blocks =
            [[\<lparr>iid = 4, opc = Call,
                operands = [Func ''__afl_ei_push_call'', ConstantInt32 4464, GlobalStringPtr ''foo''],
                nosanitize = False\<rparr>,
              call_foo,
              \<lparr>iid = 5, opc = Call, operands = [Func ''__afl_ei_pop_return''], nosanitize = False\<rparr>,
              \<lparr>iid = 6, opc = Call,
                operands = [Func ''__afl_ei_push_call'', ConstantInt32 4465, GlobalStringPtr ''fread''],
                nosanitize = False\<rparr>,
              \<lparr>iid = 7, opc = Call,
                operands = [Func ''__afl_ei_fread'', OtherVal 1, OtherVal 2, OtherVal 3, OtherVal 4],
                nosanitize = False\<rparr>,
              \<lparr>iid = 8, opc = Call, operands = [Func ''__afl_ei_pop_return''], nosanitize = False\<rparr>,
              \<lparr>iid = 2, opc = OtherOp 1, operands = [InsnRes 7, OtherVal 5], nosanitize = False\<rparr>,
              ret_nbytes]]\<rparr>,
         \<lparr>fname = ''foo'', blocks = []\<rparr>,
         \<lparr>fname = ''fread'', blocks = []\<rparr>,
         \<lparr>fname = ''__afl_ei_push_call'', blocks = []\<rparr>,
         \<lparr>fname = ''__afl_ei_pop_return'', blocks = []\<rparr>,
         \<lparr>fname = ''__afl_ei_fread'', blocks = []\<rparr>]\<rparr>"

section \<open>Properties: the words of the edge update\<close>

lemma unat_shr1: "unat (drop_bit 1 (c::u32)) = unat c div 2"
  by (simp add: drop_bit_eq_div unat_div)

lemma shift_fix: "drop_bit 1 (c::u32) = c \<Longrightarrow> c = 0"
proof -
  assume a: "drop_bit 1 c = c"
  have "unat (drop_bit 1 c) = unat c div 2" by (rule unat_shr1)
  with a have "unat c = unat c div 2" by simp
  then have "unat c = 0" by arith
  then show ?thesis by (simp add: unat_0_iff)
qed

lemma gray_bit: "bit (drop_bit 1 a XOR (a::u32)) n = (bit a (Suc n) \<noteq> bit a n)"
  by (simp add: bit_xor_iff bit_drop_bit_eq)

lemma hi_bits: "n \<ge> 32 \<Longrightarrow> bit (a::u32) n = False"
  using bit_imp_le_length[of a n] by auto

lemma gray_inj:
  assumes "drop_bit 1 a XOR a = drop_bit 1 b XOR (b::u32)"
  shows "a = b"
proof -
  have g: "\<And>n. (bit a (Suc n) \<noteq> bit a n) = (bit b (Suc n) \<noteq> bit b n)"
    using assms gray_bit by metis
  have hi: "\<And>n. n \<ge> 32 \<Longrightarrow> bit a n = bit b n"
    by (simp add: hi_bits)
  have down: "bit a (32 - d) = bit b (32 - d)" for d
  proof (induction d)
    case 0 show ?case using hi by simp
  next
    case (Suc d)
    show ?case
    proof (cases "d < 32")
      case True
      then have "Suc (32 - Suc d) = 32 - d" by simp
      with g[of "32 - Suc d"] Suc show ?thesis by auto
    next
      case False then show ?thesis using Suc by simp
    qed
  qed
  have "bit a n = bit b n" for n
  proof (cases "n \<le> 32")
    case True then show ?thesis using down[of "32 - n"] by simp
  next
    case False then show ?thesis using hi by simp
  qed
  then show ?thesis by (simp add: bit_eq_iff)
qed

lemma xor_swap: "(x::u32) XOR b = y XOR a \<Longrightarrow> x XOR a = y XOR b"
proof (rule bit_eqI)
  fix n
  assume h: "x XOR b = y XOR a"
  then have "bit (x XOR b) n = bit (y XOR a) n" by simp
  then show "bit (x XOR a) n = bit (y XOR b) n" by (auto simp: bit_xor_iff)
qed

lemma xor_zero_eq: "(x::u32) XOR y = 0 \<Longrightarrow> x = y"
proof (rule bit_eqI)
  fix n
  assume "x XOR y = 0"
  then have "bit (x XOR y) n = bit (0::u32) n" by simp
  then show "bit x n = bit y n" by (simp add: bit_xor_iff)
qed

lemma xor_bound:
  assumes "unat (a::u32) < 2 ^ k" "unat b < 2 ^ k"
  shows "unat (a XOR b) < 2 ^ k"
proof -
  have "take_bit k (unat a) = unat a" "take_bit k (unat b) = unat b"
    using assms by (simp_all add: take_bit_nat_eq_self_iff)
  then have "take_bit k (unat a XOR unat b) = unat a XOR unat b"
    by simp
  then have "unat a XOR unat b < 2 ^ k"
    by (simp only: take_bit_nat_eq_self_iff)
  then show ?thesis by (simp add: unsigned_xor_eq)
qed

lemma of_nat_le: "unat (of_nat l :: u32) \<le> l"
  by (simp add: unat_of_nat)

lemma scast_inj: "(scast (x::u32) :: u64) = scast y \<Longrightarrow> x = y"
proof -
  assume a: "(scast x :: u64) = scast y"
  have up: "is_up (scast :: u32 \<Rightarrow> u64)" by (simp add: is_up)
  have "x = (scast (scast x :: u64) :: u32)"
    by (rule scast_up_scast_id [OF up, symmetric])
  also have "\<dots> = (scast (scast y :: u64) :: u32)"
    by (rule arg_cong [OF a])
  also have "\<dots> = y"
    by (rule scast_up_scast_id [OF up])
  finally show ?thesis .
qed

lemma no_top_bit: "unat (x::u32) < 2 ^ 31 \<Longrightarrow> \<not> bit x 31"
proof -
  assume "unat x < 2 ^ 31"
  then have "take_bit 31 (unat x) = unat x" by (simp add: take_bit_nat_eq_self_iff)
  then have "bit (unat x) 31 = bit (take_bit 31 (unat x)) 31" by simp
  also have "\<dots> = False" by (simp add: bit_take_bit_iff)
  finally show ?thesis by (simp add: bit_unsigned_iff)
qed

lemma scast_small: "unat (x::u32) < 2 ^ 31 \<Longrightarrow> (scast x :: u64) = ucast x"
proof -
  assume "unat x < 2 ^ 31"
  then have nb: "\<not> bit x 31" by (rule no_top_bit)
  show ?thesis
    by (rule bit_eqI) (simp add: bit_word_scast_iff bit_ucast_iff nb)
qed

section \<open>Properties: the edge update at run time\<close>

text \<open>The eight instructions the builder creates, with their identities written out.\<close>

lemma edge_update_code:
  "fst (edge_update c st) =
     (let n = next_iid st in
      [\<lparr>iid = n, opc = Load, operands = [GlobalVar AFLPrevLoc], nosanitize = True\<rparr>,
       \<lparr>iid = n + 1, opc = Load, operands = [GlobalVar AFLMapPtr], nosanitize = True\<rparr>,
       \<lparr>iid = n + 2, opc = Xor, operands = [InsnRes n, ConstantInt32 c], nosanitize = False\<rparr>,
       \<lparr>iid = n + 3, opc = GetElementPtr, operands = [InsnRes (n + 1), InsnRes (n + 2)], nosanitize = False\<rparr>,
       \<lparr>iid = n + 4, opc = Load, operands = [InsnRes (n + 3)], nosanitize = True\<rparr>,
       \<lparr>iid = n + 5, opc = Add, operands = [InsnRes (n + 4), ConstantInt8 1], nosanitize = False\<rparr>,
       \<lparr>iid = n + 6, opc = Store, operands = [InsnRes (n + 5), InsnRes (n + 3)], nosanitize = True\<rparr>,
       \<lparr>iid = n + 7, opc = Store, operands = [ConstantInt32 (drop_bit 1 c), GlobalVar AFLPrevLoc], nosanitize = True\<rparr>])"
  by (simp add: edge_update_def Create_def CreateZExt32_def Let_def)

text \<open>
  Their run: a fault when no byte is mapped at the slot, and otherwise the state with the
  slot incremented and the register of the running thread set.
\<close>

lemma run_edge_update_eq:
  "run_edge_update t c st s rg =
     (case mem s (slot_addr t c s) of
        None \<Rightarrow> Inl SegFault
      | Some b \<Rightarrow>
          Inr (s\<lparr>mem := (mem s)(slot_addr t c s \<mapsto> b + 1),
                 afl_prev_loc := (afl_prev_loc s)(t := drop_bit 1 c)\<rparr>))"
  by (simp add: run_edge_update_def edge_update_code Let_def exec_insn_def resolve_ptr_def
      eval_val_def load_from_def store_to_def slot_addr_def edge_id_def split: option.splits)

text \<open>
  C1, as amended. The inserted code has no null check. With a null map pointer it still
  addresses the byte at \<open>0 + edgeId\<close>: it faults exactly when no byte is mapped there,
  it increments that byte and sets the register when one is, and it is never a no-op.
\<close>

theorem edge_update_has_no_null_check:
  assumes "afl_area_ptr s = 0"
  shows "slot_addr t cur_loc s = scast (edge_id t cur_loc s)
       \<and> (run_edge_update t cur_loc st s rg = Inl SegFault
            \<longleftrightarrow> mem s (scast (edge_id t cur_loc s)) = None)
       \<and> (\<forall>b. mem s (scast (edge_id t cur_loc s)) = Some b \<longrightarrow>
            run_edge_update t cur_loc st s rg =
              Inr (s\<lparr>mem := (mem s)(scast (edge_id t cur_loc s) \<mapsto> b + 1),
                     afl_prev_loc := (afl_prev_loc s)(t := drop_bit 1 cur_loc)\<rparr>))
       \<and> run_edge_update t cur_loc st s rg \<noteq> Inr s"
proof -
  have a: "slot_addr t cur_loc s = scast (edge_id t cur_loc s)"
    using assms by (simp add: slot_addr_def)
  have b: "run_edge_update t cur_loc st s rg \<noteq> Inr s"
  proof (cases "mem s (slot_addr t cur_loc s)")
    case None then show ?thesis by (simp add: run_edge_update_eq)
  next
    case (Some b)
    define s' where "s' = s\<lparr>mem := (mem s)(slot_addr t cur_loc s \<mapsto> b + 1),
                 afl_prev_loc := (afl_prev_loc s)(t := drop_bit 1 cur_loc)\<rparr>"
    have "mem s' (slot_addr t cur_loc s) = Some (b + 1)" by (simp add: s'_def)
    then have "mem s' (slot_addr t cur_loc s) \<noteq> mem s (slot_addr t cur_loc s)"
      using Some by simp
    then have "s' \<noteq> s" by auto
    moreover have "run_edge_update t cur_loc st s rg = Inr s'"
      using Some by (simp add: run_edge_update_eq s'_def)
    ultimately show ?thesis by simp
  qed
  show ?thesis using a b by (auto simp: run_edge_update_eq split: option.splits)
qed

theorem edge_update_has_no_null_check_witness:
  "run_edge_update 0 5 fresh_pass unattached no_regs = Inl SegFault
   \<and> run_edge_update 0 5 fresh_pass unattached no_regs \<noteq> Inr unattached"
  using edge_update_has_no_null_check [of unattached 0 5 fresh_pass no_regs]
  by (simp add: unattached_def)

text \<open>
  C1 as the spec states it fails: in a process with a null map pointer and nothing mapped
  at low addresses, the edge update of label 5 faults.
\<close>

theorem null_map_faults: 
  "afl_area_ptr unattached = 0 \<and> run_edge_update 0 5 fresh_pass unattached no_regs = Inl SegFault"
  by (simp add: run_edge_update_eq unattached_def)

text \<open>
  C2. One run of the edge update for label \<open>cur_loc\<close>, whatever the register of the
  running thread holds, on a mapped slot: the slot is the byte at the map pointer plus
  \<open>prev_loc XOR cur_loc\<close>, it is incremented by one modulo 256, and the register then
  holds \<open>cur_loc >> 1\<close>.
\<close>

theorem edge_update_counts_edge:
  assumes "mem s (slot_addr t cur_loc s) = Some b"
  shows "run_edge_update t cur_loc st s rg =
           Inr (s\<lparr>mem := (mem s)(slot_addr t cur_loc s \<mapsto> b + 1),
                  afl_prev_loc := (afl_prev_loc s)(t := drop_bit 1 cur_loc)\<rparr>)
         \<and> slot_addr t cur_loc s = afl_area_ptr s + scast (afl_prev_loc s t XOR cur_loc)
         \<and> unat (b + 1) = (unat b + 1) mod 256"
  using assms by (simp add: run_edge_update_eq slot_addr_def edge_id_def unat_word_ariths)

theorem edge_update_counts_edge_witness:
  "run_edge_update 0 5 fresh_pass attached no_regs =
     Inr (attached\<lparr>mem := (mem attached)(0x10005 \<mapsto> 1),
                   afl_prev_loc := (afl_prev_loc attached)(0 := 2)\<rparr>)"
  using edge_update_counts_edge [of attached 0 5 0 fresh_pass no_regs]
  by (simp add: attached_def slot_addr_def edge_id_def)

text \<open>
  C7, as amended. For every label other than 0, after one run of the block's edge update
  the register of the thread holds \<open>cur_loc >> 1\<close>, so a second run of the same block
  computes the edge \<open>(cur_loc >> 1) XOR cur_loc\<close>, which is not 0.
\<close>

theorem self_loop_edge:
  assumes "cur_loc \<noteq> 0" and "run_edge_update t cur_loc st s rg = Inr s1"
  shows "afl_prev_loc s1 t = drop_bit 1 cur_loc
       \<and> edge_id t cur_loc s1 = drop_bit 1 cur_loc XOR cur_loc
       \<and> edge_id t cur_loc s1 \<noteq> 0"
proof -
  have p: "afl_prev_loc s1 t = drop_bit 1 cur_loc"
    using assms(2) by (auto simp: run_edge_update_eq split: option.splits)
  have "drop_bit 1 cur_loc XOR cur_loc \<noteq> 0"
  proof
    assume "drop_bit 1 cur_loc XOR cur_loc = 0"
    then have "drop_bit 1 cur_loc = cur_loc" by (rule xor_zero_eq)
    then show False using assms(1) shift_fix [of cur_loc] by simp
  qed
  then show ?thesis using p by (simp add: edge_id_def)
qed

theorem self_loop_edge_witness:
  "edge_id 0 5 (attached\<lparr>mem := (mem attached)(0x10005 \<mapsto> 1),
                   afl_prev_loc := (afl_prev_loc attached)(0 := 2)\<rparr>) = 7"
  using self_loop_edge [of 5 0 fresh_pass attached no_regs
     "attached\<lparr>mem := (mem attached)(0x10005 \<mapsto> 1),
                   afl_prev_loc := (afl_prev_loc attached)(0 := 2)\<rparr>"]
  by (simp add: run_edge_update_eq attached_def slot_addr_def edge_id_def)

text \<open>
  C7 as the spec states it fails at the label 0, which is in \<open>[0, MAP_SIZE)\<close>: after one
  run of that block the register holds 0 and the second run computes the edge 0.
\<close>

theorem self_loop_label_zero:
  "run_edge_update 0 0 fresh_pass attached no_regs =
     Inr (attached\<lparr>mem := (mem attached)(0x10000 \<mapsto> 1),
                   afl_prev_loc := (afl_prev_loc attached)(0 := 0)\<rparr>)
   \<and> edge_id 0 0 (attached\<lparr>mem := (mem attached)(0x10000 \<mapsto> 1),
                   afl_prev_loc := (afl_prev_loc attached)(0 := 0)\<rparr>) = 0"
  by (simp add: run_edge_update_eq attached_def slot_addr_def edge_id_def)

text \<open>
  C10. One edge update leaves every byte of memory but the slot as it was, in particular
  every slot of the map at another index, and leaves the registers of the other threads,
  every shadow stack and the map pointer as they were.
\<close>

theorem edge_update_frame:
  assumes "run_edge_update t cur_loc st s rg = Inr s'"
  shows "(\<forall>a. a \<noteq> slot_addr t cur_loc s \<longrightarrow> mem s' a = mem s a)
       \<and> (\<forall>j. j \<noteq> edge_id t cur_loc s \<longrightarrow>
             mem s' (afl_area_ptr s + scast j) = mem s (afl_area_ptr s + scast j))
       \<and> (\<forall>u. u \<noteq> t \<longrightarrow> afl_prev_loc s' u = afl_prev_loc s u)
       \<and> ei_stack s' = ei_stack s
       \<and> afl_area_ptr s' = afl_area_ptr s"
proof -
  obtain b where s': "s' = s\<lparr>mem := (mem s)(slot_addr t cur_loc s \<mapsto> b + 1),
                 afl_prev_loc := (afl_prev_loc s)(t := drop_bit 1 cur_loc)\<rparr>"
    using assms by (auto simp: run_edge_update_eq split: option.splits)
  have inj: "\<And>j. j \<noteq> edge_id t cur_loc s \<Longrightarrow> afl_area_ptr s + scast j \<noteq> slot_addr t cur_loc s"
    by (auto simp: slot_addr_def dest: scast_inj)
  show ?thesis using inj by (simp add: s')
qed

theorem edge_update_frame_witness:
  "mem (attached\<lparr>mem := (mem attached)(0x10005 \<mapsto> 1),
                   afl_prev_loc := (afl_prev_loc attached)(0 := 2)\<rparr>) 0x10006 = mem attached 0x10006
   \<and> afl_prev_loc (attached\<lparr>mem := (mem attached)(0x10005 \<mapsto> 1),
                   afl_prev_loc := (afl_prev_loc attached)(0 := 2)\<rparr>) 1 = afl_prev_loc attached 1"
  using edge_update_frame [of 0 5 fresh_pass attached no_regs
     "attached\<lparr>mem := (mem attached)(0x10005 \<mapsto> 1),
                   afl_prev_loc := (afl_prev_loc attached)(0 := 2)\<rparr>"]
  by (simp add: run_edge_update_eq attached_def slot_addr_def edge_id_def)

text \<open>
  C8, as amended. For two blocks whose labels differ, the slot of the edge from A to B,
  \<open>(label A >> 1) XOR label B\<close>, is not the slot of the edge from B to A,
  \<open>(label B >> 1) XOR label A\<close>; whether the label of A is 0 plays no part.
\<close>

theorem edge_direction:
  assumes "label_A \<noteq> label_B"
    and "run_edge_update t label_A st s rg = Inr sA"
    and "run_edge_update t label_B st' s' rg' = Inr sB"
  shows "edge_id t label_B sA = drop_bit 1 label_A XOR label_B
       \<and> edge_id t label_A sB = drop_bit 1 label_B XOR label_A
       \<and> edge_id t label_B sA \<noteq> edge_id t label_A sB"
proof -
  have pA: "afl_prev_loc sA t = drop_bit 1 label_A"
    using assms(2) by (auto simp: run_edge_update_eq split: option.splits)
  have pB: "afl_prev_loc sB t = drop_bit 1 label_B"
    using assms(3) by (auto simp: run_edge_update_eq split: option.splits)
  have "drop_bit 1 label_A XOR label_B \<noteq> drop_bit 1 label_B XOR label_A"
  proof
    assume "drop_bit 1 label_A XOR label_B = drop_bit 1 label_B XOR label_A"
    then have "drop_bit 1 label_A XOR label_A = drop_bit 1 label_B XOR label_B"
      by (rule xor_swap)
    then have "label_A = label_B" by (rule gray_inj)
    then show False using assms(1) by simp
  qed
  then show ?thesis using pA pB by (simp add: edge_id_def)
qed

theorem edge_direction_witness:
  "edge_id 0 1 (attached\<lparr>mem := (mem attached)(0x10005 \<mapsto> 1),
                   afl_prev_loc := (afl_prev_loc attached)(0 := 2)\<rparr>) = 3
   \<and> edge_id 0 5 label1_after_A = 5"
  using edge_direction [of 5 1 0 fresh_pass attached no_regs
     "attached\<lparr>mem := (mem attached)(0x10005 \<mapsto> 1),
                   afl_prev_loc := (afl_prev_loc attached)(0 := 2)\<rparr>"
     fresh_pass attached no_regs label1_after_A]
  by (simp add: run_edge_update_eq attached_def slot_addr_def edge_id_def label1_after_A_def)

text \<open>
  C8 as the spec states it fails for two blocks that drew the same label 1, which is not
  0: run one after the other, both edges land on the slot 1.
\<close>

theorem equal_labels_same_slot:
  "(1::u32) \<noteq> 0
   \<and> run_edge_update 0 1 fresh_pass attached no_regs = Inr label1_after_A
   \<and> run_edge_update 0 1 fresh_pass label1_after_A no_regs = Inr label1_after_B
   \<and> edge_id 0 1 label1_after_A = edge_id 0 1 label1_after_B"
  by (simp add: run_edge_update_eq attached_def slot_addr_def edge_id_def label1_after_A_def
      label1_after_B_def)

section \<open>Properties: labels, bounds and the sampling decision\<close>

lemma AFL_R_less: "0 < x \<Longrightarrow> fst (AFL_R e x st) < x"
  by (simp add: AFL_R_def)

text \<open>
  C9. With \<open>MAP_SIZE\<close> a power of two, a label drawn by \<open>AFL_R(MAP_SIZE)\<close> (block
  labels and call-site ids alike) is below \<open>MAP_SIZE\<close>, so is the value \<open>cur_loc >> 1\<close>
  stored back to the register, and for a register value below \<open>MAP_SIZE\<close> the index
  \<open>prev_loc XOR cur_loc\<close> is below \<open>MAP_SIZE\<close> and the register stays below it after the
  update. For \<open>MAP_SIZE\<close> up to \<open>2^31\<close> the address touched is the map pointer plus that
  index.
\<close>

theorem coverage_index_in_bounds:
  assumes "MAP_SIZE e = 2 ^ k"
    and "cur_loc = of_nat (fst (AFL_R e (MAP_SIZE e) st))"
    and "unat (afl_prev_loc s t) < MAP_SIZE e"
  shows "fst (AFL_R e (MAP_SIZE e) st) < MAP_SIZE e
       \<and> unat cur_loc < MAP_SIZE e
       \<and> unat (drop_bit 1 cur_loc) < MAP_SIZE e
       \<and> unat (edge_id t cur_loc s) < MAP_SIZE e
       \<and> (\<forall>s'. run_edge_update t cur_loc st' s rg = Inr s' \<longrightarrow>
             unat (afl_prev_loc s' t) < MAP_SIZE e)
       \<and> (k \<le> 31 \<longrightarrow> slot_addr t cur_loc s = afl_area_ptr s + ucast (edge_id t cur_loc s))"
proof -
  have d: "fst (AFL_R e (MAP_SIZE e) st) < MAP_SIZE e"
    using assms(1) by (simp add: AFL_R_less)
  have c: "unat cur_loc < MAP_SIZE e"
    using d of_nat_le [of "fst (AFL_R e (MAP_SIZE e) st)"] assms(2) by simp
  have "unat (drop_bit 1 cur_loc) \<le> unat cur_loc"
    unfolding unat_shr1 by simp
  then have h: "unat (drop_bit 1 cur_loc) < MAP_SIZE e"
    using c by (rule le_less_trans)
  have x: "unat (edge_id t cur_loc s) < MAP_SIZE e"
    using xor_bound [of "afl_prev_loc s t" k cur_loc] assms(1,3) c by (simp add: edge_id_def)
  have r: "unat (afl_prev_loc s' t) < MAP_SIZE e"
    if "run_edge_update t cur_loc st' s rg = Inr s'" for s'
  proof -
    have "afl_prev_loc s' t = drop_bit 1 cur_loc"
      using that by (auto simp: run_edge_update_eq split: option.splits)
    then show ?thesis using h by simp
  qed
  have a: "slot_addr t cur_loc s = afl_area_ptr s + ucast (edge_id t cur_loc s)" if "k \<le> 31"
  proof -
    have "(2::nat) ^ k \<le> 2 ^ 31" using that by (intro power_increasing) simp_all
    then have "unat (edge_id t cur_loc s) < 2 ^ 31" using x assms(1) by simp
    then show ?thesis by (simp add: slot_addr_def scast_small)
  qed
  show ?thesis using d c h x r a by blast
qed

theorem coverage_index_in_bounds_witness:
  "unat (edge_id 0 4464 attached) < MAP_SIZE env_default
   \<and> slot_addr 0 4464 attached = 0x11170"
  using coverage_index_in_bounds [of env_default 16 4464 fresh_pass attached 0]
  by (simp add: env_default_def fresh_pass_def attached_def AFL_R_def edge_id_def)

lemma instrument_block_hit:
  "snd (fst (instrument_block e inst_ratio st bb)) = (fst (AFL_R e 100 st) < unat inst_ratio)"
  by (simp add: instrument_block_def Let_def case_prod_beta)

lemma instrument_blocks_all:
  "snd (fst (instrument_blocks e 100 st bbs)) = length bbs"
proof (induction bbs arbitrary: st)
  case Nil show ?case by simp
next
  case (Cons bb bbs)
  have "snd (fst (instrument_block e 100 st bb))"
    by (simp add: instrument_block_hit AFL_R_less)
  then show ?case using Cons
    by (auto simp: Let_def split: prod.splits) (metis fst_conv snd_conv)+
qed

lemma instrument_functions_all:
  "snd (fst (instrument_functions e 100 st Fs)) = sum_list (map (\<lambda>F. length (blocks F)) Fs)"
proof (induction Fs arbitrary: st)
  case Nil show ?case by simp
next
  case (Cons F Fs)
  show ?case using Cons instrument_blocks_all [of e st "blocks F"]
    by (auto simp: Let_def split: prod.splits) (metis fst_conv snd_conv)+
qed

lemma residue_count:
  assumes "v < m"
  shows "card {r. r < m * q \<and> r mod m = v} = q"
proof -
  have m: "0 < m" using assms by simp
  have "{r. r < m * q \<and> r mod m = v} = (\<lambda>i. m * i + v) ` {..<q}"
  proof (intro set_eqI iffI)
    fix r assume "r \<in> {r. r < m * q \<and> r mod m = v}"
    then have r: "r < m * q" "r mod m = v" by simp_all
    have "r = m * (r div m) + v" using r(2) by (metis mult_div_mod_eq)
    moreover have "r div m < q" using r(1) m by (simp add: less_mult_imp_div_less mult.commute)
    ultimately show "r \<in> (\<lambda>i. m * i + v) ` {..<q}" by blast
  next
    fix r assume "r \<in> (\<lambda>i. m * i + v) ` {..<q}"
    then obtain i where i: "i < q" and r: "r = m * i + v" by auto
    have "m * i + v < m * i + m" using assms by simp
    also have "\<dots> = m * Suc i" by simp
    also have "\<dots> \<le> m * q" using i by (intro mult_le_mono2) simp
    finally have "r < m * q" by (simp add: r)
    moreover have "r mod m = v" using assms by (simp add: r)
    ultimately show "r \<in> {r. r < m * q \<and> r mod m = v}" by simp
  qed
  moreover have "inj_on (\<lambda>i. m * i + v) {..<q}"
    using m by (auto simp: inj_on_def)
  ultimately show ?thesis by (simp add: card_image)
qed

lemma below_count:
  assumes "t \<le> m"
  shows "card {r. r < m * q \<and> r mod m < t} = q * t"
  using assms
proof (induction t)
  case 0 then show ?case by simp
next
  case (Suc t)
  have fin: "finite {r. r < m * q \<and> r mod m < t}" "finite {r. r < m * q \<and> r mod m = t}"
    by simp_all
  have "{r. r < m * q \<and> r mod m < Suc t}
          = {r. r < m * q \<and> r mod m < t} \<union> {r. r < m * q \<and> r mod m = t}"
    by auto
  moreover have "{r. r < m * q \<and> r mod m < t} \<inter> {r. r < m * q \<and> r mod m = t} = {}"
    by auto
  ultimately have "card {r. r < m * q \<and> r mod m < Suc t}
          = card {r. r < m * q \<and> r mod m < t} + card {r. r < m * q \<and> r mod m = t}"
    using fin by (simp add: card_Un_disjoint)
  also have "\<dots> = q * t + q"
    using Suc residue_count [of t m q] by simp
  finally show ?case by simp
qed

lemma instrument_blocks_length:
  "length (fst (fst (instrument_blocks e r st bbs))) = length bbs"
  by (induction bbs arbitrary: st) (simp_all add: case_prod_beta Let_def)

lemma instrument_blocks_append:
  "instrument_blocks e r st (xs @ ys) =
     (let p = instrument_blocks e r st xs; q = instrument_blocks e r (snd p) ys
      in ((fst (fst p) @ fst (fst q), snd (fst p) + snd (fst q)), snd q))"
  by (induction xs arbitrary: st) (simp_all add: case_prod_beta Let_def)

lemma instrument_blocks_nth:
  assumes "k < length bbs"
  shows "fst (fst (instrument_blocks e r st bbs)) ! k =
           fst (fst (instrument_block e r (snd (instrument_blocks e r st (take k bbs))) (bbs ! k)))"
proof -
  have "bbs = take k bbs @ (bbs ! k # drop (Suc k) bbs)"
    using assms by (rule id_take_nth_drop)
  then have "instrument_blocks e r st bbs
               = instrument_blocks e r st (take k bbs @ (bbs ! k # drop (Suc k) bbs))"
    by simp
  moreover have "length (fst (fst (instrument_blocks e r st (take k bbs)))) = k"
    using assms by (simp add: instrument_blocks_length)
  ultimately show ?thesis
    by (simp add: instrument_blocks_append Let_def case_prod_beta nth_append
        del: append_take_drop_id)
qed

lemma instrument_blocks_count:
  "snd (fst (instrument_blocks e r st bbs)) =
     length (filter (\<lambda>k. fst (AFL_R e 100 (snd (instrument_blocks e r st (take k bbs)))) < unat r)
               [0..<length bbs])"
proof (induction bbs rule: rev_induct)
  case Nil show ?case by simp
next
  case (snoc bb xs)
  define P where
    "P = (\<lambda>k. fst (AFL_R e 100 (snd (instrument_blocks e r st (take k (xs @ [bb]))))) < unat r)"
  define Q where
    "Q = (\<lambda>k. fst (AFL_R e 100 (snd (instrument_blocks e r st (take k xs)))) < unat r)"
  have old: "filter P [0..<length xs] = filter Q [0..<length xs]"
    by (rule filter_cong) (simp_all add: P_def Q_def)
  have last: "P (length xs) = (fst (AFL_R e 100 (snd (instrument_blocks e r st xs))) < unat r)"
    by (simp add: P_def)
  have "length (filter P [0..<length (xs @ [bb])])
          = length (filter P [0..<length xs]) + (if P (length xs) then 1 else 0)"
    by simp
  also have "\<dots> = length (filter Q [0..<length xs])
                  + (if fst (AFL_R e 100 (snd (instrument_blocks e r st xs))) < unat r
                     then 1 else 0)"
    by (simp only: old last)
  also have "\<dots> = snd (fst (instrument_blocks e r st xs))
                  + (if fst (AFL_R e 100 (snd (instrument_blocks e r st xs))) < unat r
                     then 1 else 0)"
    using snoc by (simp only: Q_def)
  also have "\<dots> = snd (fst (instrument_blocks e r st (xs @ [bb])))"
    using instrument_block_hit [of e r "snd (instrument_blocks e r st xs)" bb]
    by (simp add: instrument_blocks_append Let_def case_prod_beta)
  finally show ?case by (simp only: P_def)
qed

lemma instrument_functions_length:
  "length (fst (fst (instrument_functions e r st Fs))) = length Fs"
  by (induction Fs arbitrary: st) (simp_all add: case_prod_beta Let_def)

lemma instrument_functions_append:
  "instrument_functions e r st (xs @ ys) =
     (let p = instrument_functions e r st xs; q = instrument_functions e r (snd p) ys
      in ((fst (fst p) @ fst (fst q), snd (fst p) + snd (fst q)), snd q))"
  by (induction xs arbitrary: st) (simp_all add: case_prod_beta Let_def)

lemma instrument_functions_nth:
  assumes "j < length Fs"
  shows "fst (fst (instrument_functions e r st Fs)) ! j =
           (Fs ! j)\<lparr>blocks := fst (fst (instrument_blocks e r
                        (snd (instrument_functions e r st (take j Fs))) (blocks (Fs ! j))))\<rparr>"
proof -
  have "Fs = take j Fs @ (Fs ! j # drop (Suc j) Fs)"
    using assms by (rule id_take_nth_drop)
  then have "instrument_functions e r st Fs
               = instrument_functions e r st (take j Fs @ (Fs ! j # drop (Suc j) Fs))"
    by simp
  moreover have "length (fst (fst (instrument_functions e r st (take j Fs)))) = j"
    using assms by (simp add: instrument_functions_length)
  ultimately show ?thesis
    by (simp add: instrument_functions_append Let_def case_prod_beta nth_append
        del: append_take_drop_id)
qed

lemma instrument_functions_count:
  "snd (fst (instrument_functions e r st Fs)) =
     sum_list (map (\<lambda>j. snd (fst (instrument_blocks e r
                          (snd (instrument_functions e r st (take j Fs))) (blocks (Fs ! j)))))
                [0..<length Fs])"
proof (induction Fs rule: rev_induct)
  case Nil show ?case by simp
next
  case (snoc F xs)
  define P where
    "P = (\<lambda>j. snd (fst (instrument_blocks e r
                   (snd (instrument_functions e r st (take j (xs @ [F]))))
                   (blocks ((xs @ [F]) ! j)))))"
  define Q where
    "Q = (\<lambda>j. snd (fst (instrument_blocks e r
                   (snd (instrument_functions e r st (take j xs))) (blocks (xs ! j)))))"
  have old: "map P [0..<length xs] = map Q [0..<length xs]"
    by (rule map_cong) (simp_all add: P_def Q_def nth_append)
  have last: "P (length xs) = snd (fst (instrument_blocks e r
                   (snd (instrument_functions e r st xs)) (blocks F)))"
    by (simp add: P_def)
  have "sum_list (map P [0..<length (xs @ [F])])
          = sum_list (map P [0..<length xs]) + P (length xs)"
    by simp
  also have "\<dots> = sum_list (map Q [0..<length xs])
                  + snd (fst (instrument_blocks e r
                       (snd (instrument_functions e r st xs)) (blocks F)))"
    by (simp only: old last)
  also have "\<dots> = snd (fst (instrument_functions e r st xs))
                  + snd (fst (instrument_blocks e r
                       (snd (instrument_functions e r st xs)) (blocks F)))"
    using snoc by (simp only: Q_def)
  also have "\<dots> = snd (fst (instrument_functions e r st (xs @ [F])))"
    by (simp add: instrument_functions_append Let_def case_prod_beta)
  finally show ?case by (simp only: P_def)
qed

lemma residue_count_any:
  assumes "v < m"
  shows "card {r. r < N \<and> r mod m = v} = N div m + (if v < N mod m then 1 else 0)"
proof -
  define q where "q = N div m"
  define t where "t = N mod m"
  have m: "0 < m" using assms by simp
  have N: "N = m * q + t" by (simp add: q_def t_def)
  have t: "t < m" using m by (simp add: t_def)
  have tail: "{r. m * q \<le> r \<and> r < N \<and> r mod m = v} = (if v < t then {m * q + v} else {})"
  proof (intro set_eqI iffI)
    fix r assume "r \<in> {r. m * q \<le> r \<and> r < N \<and> r mod m = v}"
    then have r: "m * q \<le> r" "r < m * q + t" "r mod m = v" using N by simp_all
    define d where "d = r - m * q"
    have rd: "r = m * q + d" using r(1) by (simp add: d_def)
    have d: "d < t" using r(2) rd by simp
    then have "d < m" using t by simp
    then have "r mod m = d" by (simp add: rd)
    then have "d = v" using r(3) by simp
    then show "r \<in> (if v < t then {m * q + v} else {})" using d rd by simp
  next
    fix r assume "r \<in> (if v < t then {m * q + v} else {})"
    then have v: "v < t" and r: "r = m * q + v" by (simp_all split: if_splits)
    show "r \<in> {r. m * q \<le> r \<and> r < N \<and> r mod m = v}"
      using v r N assms by simp
  qed
  have "{r. r < N \<and> r mod m = v}
          = {r. r < m * q \<and> r mod m = v} \<union> {r. m * q \<le> r \<and> r < N \<and> r mod m = v}"
    using N by auto
  moreover have "{r. r < m * q \<and> r mod m = v} \<inter> {r. m * q \<le> r \<and> r < N \<and> r mod m = v} = {}"
    by auto
  moreover have "finite {r. r < m * q \<and> r mod m = v}"
    "finite {r. m * q \<le> r \<and> r < N \<and> r mod m = v}" by simp_all
  ultimately have "card {r. r < N \<and> r mod m = v}
          = card {r. r < m * q \<and> r mod m = v} + card {r. m * q \<le> r \<and> r < N \<and> r mod m = v}"
    by (simp add: card_Un_disjoint)
  also have "\<dots> = q + (if v < t then 1 else 0)"
    using residue_count [OF assms, of q] by (simp add: tail)
  finally show ?thesis by (simp add: q_def t_def)
qed

lemma count_upto: "length (filter P [0..<N]) = card {r. r < N \<and> P r}"
proof -
  have "set (filter P [0..<N]) = {r. r < N \<and> P r}" by auto
  moreover have "distinct (filter P [0..<N])" by simp
  ultimately show ?thesis by (metis distinct_card)
qed

lemma AFL_R_at:
  "fst (AFL_R (e\<lparr>random := (random e)(rand_calls st := r)\<rparr>) x st) = r mod x"
  by (simp add: AFL_R_def)

lemma draw_count:
  assumes "v < 100"
  shows "length (filter (\<lambda>r. fst (AFL_R (e\<lparr>random := (random e)(rand_calls st := r)\<rparr>) 100 st) = v)
                   [0..<N])
           = N div 100 + (if v < N mod 100 then 1 else 0)"
  unfolding AFL_R_at count_upto using assms by (rule residue_count_any)

lemma hit_count:
  assumes "100 dvd N" and "unat inst_ratio \<le> 100"
  shows "length (filter (\<lambda>r. snd (fst (instrument_block
                     (e\<lparr>random := (random e)(rand_calls st := r)\<rparr>) inst_ratio st bb)))
                   [0..<N]) * 100
           = N * unat inst_ratio"
proof -
  obtain q where N: "N = 100 * q" using assms(1) by (auto simp: dvd_def)
  have "length (filter (\<lambda>r. snd (fst (instrument_block
                     (e\<lparr>random := (random e)(rand_calls st := r)\<rparr>) inst_ratio st bb)))
                   [0..<N])
          = card {r. r < 100 * q \<and> r mod 100 < unat inst_ratio}"
    unfolding instrument_block_hit AFL_R_at count_upto N ..
  also have "\<dots> = q * unat inst_ratio" using assms(2) by (rule below_count)
  finally show ?thesis by (simp add: N)
qed

lemma instrument_blocks_sites:
  "fst (fst (instrument_blocks e r st bbs)) =
     map (\<lambda>k. fst (fst (instrument_block e r (snd (instrument_blocks e r st (take k bbs))) (bbs ! k))))
       [0..<length bbs]"
  by (rule nth_equalityI) (simp_all add: instrument_blocks_length instrument_blocks_nth)

lemma instrument_functions_sites:
  "fst (fst (instrument_functions e r st Fs)) =
     map (\<lambda>j. (Fs ! j)\<lparr>blocks :=
                 map (\<lambda>k. fst (fst (instrument_block e r (site_state e r st Fs j k)
                                      (blocks (Fs ! j) ! k))))
                   [0..<length (blocks (Fs ! j))]\<rparr>)
       [0..<length Fs]"
proof (rule nth_equalityI)
  show "length (fst (fst (instrument_functions e r st Fs))) = length (map (\<lambda>j. (Fs ! j)\<lparr>blocks :=
                 map (\<lambda>k. fst (fst (instrument_block e r (site_state e r st Fs j k)
                                      (blocks (Fs ! j) ! k))))
                   [0..<length (blocks (Fs ! j))]\<rparr>)
       [0..<length Fs])"
    by (simp add: instrument_functions_length)
next
  fix j assume "j < length (fst (fst (instrument_functions e r st Fs)))"
  then have j: "j < length Fs" by (simp add: instrument_functions_length)
  have "fst (fst (instrument_functions e r st Fs)) ! j =
           (Fs ! j)\<lparr>blocks := fst (fst (instrument_blocks e r
                        (snd (instrument_functions e r st (take j Fs))) (blocks (Fs ! j))))\<rparr>"
    using j by (rule instrument_functions_nth)
  also have "fst (fst (instrument_blocks e r
                        (snd (instrument_functions e r st (take j Fs))) (blocks (Fs ! j))))
           = map (\<lambda>k. fst (fst (instrument_block e r (site_state e r st Fs j k)
                                      (blocks (Fs ! j) ! k))))
                   [0..<length (blocks (Fs ! j))]"
    unfolding site_state_def by (rule instrument_blocks_sites)
  finally show "fst (fst (instrument_functions e r st Fs)) ! j = map (\<lambda>j. (Fs ! j)\<lparr>blocks :=
                 map (\<lambda>k. fst (fst (instrument_block e r (site_state e r st Fs j k)
                                      (blocks (Fs ! j) ! k))))
                   [0..<length (blocks (Fs ! j))]\<rparr>)
       [0..<length Fs] ! j"
    using j by simp
qed

lemma instrument_functions_hits:
  "snd (fst (instrument_functions e r st Fs)) =
     sum_list (map (\<lambda>j. length (filter (\<lambda>k. fst (AFL_R e 100 (site_state e r st Fs j k)) < unat r)
                                    [0..<length (blocks (Fs ! j))]))
                 [0..<length Fs])"
  unfolding site_state_def
  by (simp only: instrument_functions_count [of e r st Fs] instrument_blocks_count)

lemma AFLCoverage_runOnModule_sites:
  assumes "decide_inst_ratio (AFL_INST_RATIO e) = Inr ratio"
  shows "AFLCoverage_runOnModule e st M =
     Inr ((\<lparr>globals = globals M @ [''__afl_area_ptr'', ''__afl_prev_loc''],
            mfunctions =
              map (\<lambda>j. (mfunctions M ! j)\<lparr>blocks :=
                     map (\<lambda>k. fst (fst (instrument_block e ratio
                                 (site_state e ratio st (mfunctions M) j k)
                                 (blocks (mfunctions M ! j) ! k))))
                       [0..<length (blocks (mfunctions M ! j))]\<rparr>)
                [0..<length (mfunctions M)]\<rparr>,
           sum_list (map (\<lambda>j. length (filter
                        (\<lambda>k. fst (AFL_R e 100 (site_state e ratio st (mfunctions M) j k))
                               < unat ratio)
                        [0..<length (blocks (mfunctions M ! j))]))
                      [0..<length (mfunctions M)])),
          snd (instrument_functions e ratio st (mfunctions M)))"
proof -
  have "AFLCoverage_runOnModule e st M =
     Inr ((\<lparr>globals = globals M @ [''__afl_area_ptr'', ''__afl_prev_loc''],
            mfunctions = fst (fst (instrument_functions e ratio st (mfunctions M)))\<rparr>,
           snd (fst (instrument_functions e ratio st (mfunctions M)))),
          snd (instrument_functions e ratio st (mfunctions M)))"
    using assms by (simp add: AFLCoverage_runOnModule_def Let_def case_prod_beta)
  then show ?thesis
    by (simp only: instrument_functions_sites [of e ratio st "mfunctions M"]
        instrument_functions_hits [of e ratio st "mfunctions M"])
qed



section \<open>Properties: the ratio read from the environment\<close>

lemma digit_not_space: "isdigit c \<Longrightarrow> \<not> isspace c"
  by (auto simp: isdigit_def isspace_def)

lemma digit_not_sign: "isdigit c \<Longrightarrow> c \<noteq> CHR ''+'' \<and> c \<noteq> CHR ''-''"
  by (auto simp: isdigit_def)

lemma skip_spaces:
  assumes "list_all isspace ws" and "r = [] \<or> \<not> isspace (hd r)"
  shows "dropWhile isspace (ws @ r) = r"
proof -
  have "dropWhile isspace (ws @ r) = dropWhile isspace r"
    using assms(1) by (simp add: dropWhile_append2 list_all_iff)
  also have "\<dots> = r" using assms(2) by (cases r) auto
  finally show ?thesis .
qed

lemma take_digits:
  assumes "list_all isdigit ds" and "r = [] \<or> \<not> isdigit (hd r)"
  shows "takeWhile isdigit (ds @ r) = ds"
proof -
  have "takeWhile isdigit (ds @ r) = ds @ takeWhile isdigit r"
    using assms(1) by (simp add: takeWhile_append2 list_all_iff)
  also have "\<dots> = ds" using assms(2) by (cases r) auto
  finally show ?thesis by simp
qed

lemma sscanf_u_number:
  assumes "list_all isspace ws" and "list_all isdigit ds" and "ds \<noteq> []"
    and "r = [] \<or> \<not> isdigit (hd r)"
  shows "sscanf_u (ws @ ds @ r) x = (1, ucast (strtoul_digits False ds))"
proof -
  obtain d ds' where ds: "ds = d # ds'" using assms(3) by (cases ds) auto
  have dd: "isdigit d" using assms(2) ds by simp
  have "dropWhile isspace (ws @ (ds @ r)) = ds @ r"
    using assms(1) ds dd by (intro skip_spaces) (simp_all add: digit_not_space)
  moreover have "takeWhile isdigit (ds @ r) = ds"
    using assms(2,4) by (rule take_digits)
  ultimately show ?thesis
    using ds dd digit_not_sign [of d] assms(3)
    by (simp add: sscanf_u_def Let_def)
qed

lemma stored_plain:
  assumes "n < 2 ^ 64"
  shows "unat (ucast (of_nat n :: u64) :: u32) = n mod 2 ^ 32"
proof -
  have "unat (of_nat n :: u64) = n" using assms by (simp add: unat_of_nat)
  then show ?thesis by (simp add: unsigned_ucast_eq take_bit_eq_mod)
qed

lemma stored_saturated: "unat (ucast (- 1 :: u64) :: u32) = 2 ^ 32 - 1"
proof -
  have "(ucast (- 1 :: u64) :: u32) = - 1"
    by (rule bit_eqI) (auto simp: bit_ucast_iff)
  then show ?thesis by (simp add: unsigned_minus_1_eq_mask mask_eq_exp_minus_1)
qed

lemma negated_word:
  assumes "0 < n" and "n < 2 ^ 64"
  shows "- (of_nat n :: u64) = of_nat (2 ^ 64 - n)"
proof -
  have "(of_nat (2 ^ 64 - n) :: u64) + of_nat n = of_nat (2 ^ 64 - n + n)"
    by (simp only: of_nat_add)
  also have "\<dots> = of_nat (2 ^ 64)" using assms by simp
  also have "\<dots> = (0 :: u64)" by simp
  finally have "(of_nat (2 ^ 64 - n) :: u64) + of_nat n = 0" .
  then have "of_nat n + (of_nat (2 ^ 64 - n) :: u64) = 0" by (simp only: add.commute)
  then show ?thesis by (simp only: neg_eq_iff_add_eq_0)
qed

lemma stored_negated:
  assumes "0 < n" and "n < 2 ^ 64"
  shows "unat (ucast (- (of_nat n :: u64)) :: u32) = (2 ^ 64 - n) mod 2 ^ 32"
proof -
  have "(2::nat) ^ 64 - n < 2 ^ 64" using assms by simp
  then show ?thesis unfolding negated_word [OF assms] by (rule stored_plain)
qed

lemma sign_cases: "sg \<in> {[], ''+'', ''-''} \<Longrightarrow> sg = [] \<or> sg = ''+'' \<or> sg = ''-''"
  by auto

lemma sscanf_u_signed:
  assumes ws: "list_all isspace ws" and sg: "sg \<in> {[], ''+'', ''-''}"
    and ds: "list_all isdigit ds" "ds \<noteq> []" and r: "r = [] \<or> \<not> isdigit (hd r)"
  shows "sscanf_u (ws @ sg @ ds @ r) x = (1, ucast (strtoul_digits (sg = ''-'') ds))"
proof -
  have tk: "takeWhile isdigit (ds @ r) = ds" using ds(1) r by (rule take_digits)
  obtain d ds' where dsc: "ds = d # ds'" using ds(2) by (cases ds) auto
  have dd: "isdigit d" using ds(1) dsc by simp
  from sign_cases [OF sg] show ?thesis
  proof (elim disjE)
    assume "sg = []"
    then show ?thesis using sscanf_u_number [OF ws ds r, of x] by simp
  next
    assume s: "sg = ''+''"
    have "dropWhile isspace (ws @ (''+'' @ ds @ r)) = ''+'' @ ds @ r"
      using ws by (intro skip_spaces) (simp_all add: isspace_def)
    then show ?thesis using tk ds(2) by (simp add: sscanf_u_def s Let_def)
  next
    assume s: "sg = ''-''"
    have "dropWhile isspace (ws @ (''-'' @ ds @ r)) = ''-'' @ ds @ r"
      using ws by (intro skip_spaces) (simp_all add: isspace_def)
    then show ?thesis using tk ds(2) by (simp add: sscanf_u_def s Let_def)
  qed
qed

lemma sscanf_u_no_number:
  assumes ws: "list_all isspace ws" and sg: "sg \<in> {[], ''+'', ''-''}"
    and r: "r = [] \<or> \<not> isdigit (hd r)"
    and r0: "sg = [] \<longrightarrow> r = [] \<or> \<not> isspace (hd r) \<and> hd r \<noteq> CHR ''+'' \<and> hd r \<noteq> CHR ''-''"
  shows "fst (sscanf_u (ws @ sg @ r) x) \<noteq> 1"
proof -
  have tk: "takeWhile isdigit r = []" using r by (cases r) auto
  from sign_cases [OF sg] show ?thesis
  proof (elim disjE)
    assume s: "sg = []"
    have dw: "dropWhile isspace (ws @ r) = r" using ws r0 s by (intro skip_spaces) auto
    show ?thesis
      unfolding s append_Nil sscanf_u_def dw using r r0 s by (cases r) (auto simp: Let_def)
  next
    assume s: "sg = ''+''"
    have dw: "dropWhile isspace (ws @ (''+'' @ r)) = ''+'' @ r"
      using ws by (intro skip_spaces) (simp_all add: isspace_def)
    show ?thesis unfolding s sscanf_u_def dw using tk by (simp add: Let_def)
  next
    assume s: "sg = ''-''"
    have dw: "dropWhile isspace (ws @ (''-'' @ r)) = ''-'' @ r"
      using ws by (intro skip_spaces) (simp_all add: isspace_def)
    show ?thesis unfolding s sscanf_u_def dw using tk by (simp add: Let_def)
  qed
qed

lemma decide_by_value:
  assumes "sscanf_u s 100 = (1, v)"
  shows "decide_inst_ratio (Some s) =
           (if unat v = 0 \<or> 100 < unat v then Inl FATAL_bad_inst_ratio else Inr v)"
proof -
  have z: "(v = 0) = (unat v = 0)" by (simp add: unat_0_iff)
  have g: "(v > 100) = (100 < unat v)" by (simp add: word_less_nat_alt)
  show ?thesis using assms z g by (simp add: decide_inst_ratio_def)
qed

lemma stored_value:
  "unat (ucast (strtoul_digits neg ds) :: u32) =
     (let n = dec_value 0 ds in
      if n \<ge> 2 ^ 64 then 2 ^ 32 - 1
      else if neg \<and> 0 < n then (2 ^ 64 - n) mod 2 ^ 32
      else n mod 2 ^ 32)"
proof -
  define n where "n = dec_value 0 ds"
  consider (big) "n \<ge> 2 ^ 64" | (neg) "n < 2 ^ 64" "neg" "0 < n"
    | (zero) "n = 0" | (pos) "n < 2 ^ 64" "\<not> neg" by fastforce
  then have "unat (ucast (strtoul_digits neg ds) :: u32) =
      (if n \<ge> 2 ^ 64 then 2 ^ 32 - 1
       else if neg \<and> 0 < n then (2 ^ 64 - n) mod 2 ^ 32
       else n mod 2 ^ 32)"
  proof cases
    case big
    then show ?thesis
      using stored_saturated by (simp add: strtoul_digits_def n_def [symmetric])
  next
    case neg
    then show ?thesis
      using stored_negated [of n] by (simp add: strtoul_digits_def n_def [symmetric])
  next
    case zero
    then show ?thesis by (simp add: strtoul_digits_def n_def [symmetric])
  next
    case pos
    then show ?thesis
      using stored_plain [of n] by (simp add: strtoul_digits_def n_def [symmetric])
  qed
  then show ?thesis by (simp add: n_def Let_def)
qed




section \<open>Properties: the execution-indexing pass\<close>

lemma rauw_fields [simp]:
  "iid (replaceAllUsesWith a b i) = iid i"
  "opc (replaceAllUsesWith a b i) = opc i"
  "nosanitize (replaceAllUsesWith a b i) = nosanitize i"
  "length (operands (replaceAllUsesWith a b i)) = length (operands i)"
  by (simp_all add: replaceAllUsesWith_def)

lemma rauw_getCalledFunction [simp]:
  "getCalledFunction (replaceAllUsesWith a b i) = getCalledFunction i"
  by (cases "operands i")
     (auto simp: replaceAllUsesWith_def getCalledFunction_def split: val.splits)

text \<open>The three ways one turn of the loop goes.\<close>

lemma ei_while_other:
  "opc Insn \<noteq> Call \<Longrightarrow>
   ei_while e FRead (st, pre, post) dn (Insn # rest) =
     ei_while e FRead (st, pre, post) (dn @ [Insn]) rest"
  by simp

lemma ei_while_call:
  "opc Insn = Call \<Longrightarrow> \<not> is_fread_call FRead Insn \<Longrightarrow>
   ei_while e FRead (st, pre, post) dn (Insn # rest) =
     ei_while e FRead
       (st\<lparr>rand_calls := Suc (rand_calls st), next_iid := Suc (Suc (next_iid st))\<rparr>, pre, post)
       (dn @ [\<lparr>iid = next_iid st, opc = Call,
                operands = [Func ''__afl_ei_push_call'',
                            ConstantInt32 (of_nat (random e (rand_calls st) mod MAP_SIZE e)),
                            spec_callee_name Insn],
                nosanitize = False\<rparr>,
              Insn,
              \<lparr>iid = Suc (next_iid st), opc = Call, operands = [Func ''__afl_ei_pop_return''],
                nosanitize = False\<rparr>])
       rest"
  by (auto simp: is_fread_call_def AFL_R_def Create_def Let_def spec_callee_name_def hasName_def
      split: option.splits)

lemma ei_while_fread:
  "is_fread_call FRead Insn \<Longrightarrow>
   ei_while e FRead (st, pre, post) dn (Insn # rest) =
     (let r = replaceAllUsesWith (iid Insn) (Suc (next_iid st)) in
      ei_while e FRead
        (st\<lparr>rand_calls := Suc (rand_calls st), next_iid := Suc (Suc (Suc (next_iid st)))\<rparr>,
         map (map r) pre, map (map r) post)
        (map r dn @
         [\<lparr>iid = next_iid st, opc = Call,
                operands = [Func ''__afl_ei_push_call'',
                            ConstantInt32 (of_nat (random e (rand_calls st) mod MAP_SIZE e)),
                            spec_callee_name Insn],
                nosanitize = False\<rparr>,
          r \<lparr>iid = Suc (next_iid st), opc = Call,
             operands = Func ''__afl_ei_fread'' # arg_operands Insn, nosanitize = False\<rparr>,
          \<lparr>iid = Suc (Suc (next_iid st)), opc = Call, operands = [Func ''__afl_ei_pop_return''],
                nosanitize = False\<rparr>])
        (map r rest))"
  by (auto simp: is_fread_call_def AFL_R_def Create_def Let_def spec_callee_name_def hasName_def
      replaceAllUsesWith_def split: option.splits cong: if_cong)

declare ei_while.simps(2) [simp del]

lemma redirect_id [simp]: "redirect (\<lambda>n. n) v = v"
  by (cases v) (simp_all add: redirect_def)

lemma redirect_uses_id [simp]: "redirect_uses (\<lambda>n. n) i = i"
  by (simp add: redirect_uses_def map_idI)

lemma redirect_comp: "redirect \<tau> (redirect \<sigma> v) = redirect (\<tau> \<circ> \<sigma>) v"
  by (cases v) (simp_all add: redirect_def)

lemma redirect_uses_comp [simp]:
  "redirect_uses \<tau> (redirect_uses \<sigma> i) = redirect_uses (\<tau> \<circ> \<sigma>) i"
  by (simp add: redirect_uses_def redirect_comp)

lemma rauw_redirect: "replaceAllUsesWith a b = redirect_uses ((\<lambda>n. n)(a := b))"
proof
  fix i
  have "(\<lambda>v. if v = InsnRes a then InsnRes b else v) = redirect ((\<lambda>n. n)(a := b))"
  proof
    fix v show "(if v = InsnRes a then InsnRes b else v) = redirect ((\<lambda>n. n)(a := b)) v"
      by (cases v) (simp_all add: redirect_def)
  qed
  then show "replaceAllUsesWith a b i = redirect_uses ((\<lambda>n. n)(a := b)) i"
    by (simp add: replaceAllUsesWith_def redirect_uses_def)
qed

lemma redirect_uses_fields [simp]:
  "iid (redirect_uses \<sigma> i) = iid i"
  "opc (redirect_uses \<sigma> i) = opc i"
  "nosanitize (redirect_uses \<sigma> i) = nosanitize i"
  "operands (redirect_uses \<sigma> i) = map (redirect \<sigma>) (operands i)"
  by (simp_all add: redirect_uses_def)

lemma redirect_uses_getCalledFunction [simp]:
  "getCalledFunction (redirect_uses \<sigma> i) = getCalledFunction i"
  by (cases "operands i")
     (auto simp: redirect_def getCalledFunction_def split: val.splits)

lemma redirect_uses_callee_name [simp]:
  "spec_callee_name (redirect_uses \<sigma> i) = spec_callee_name i"
  by (simp add: spec_callee_name_def)

lemma redirect_callee_name [simp]: "redirect \<sigma> (spec_callee_name c) = spec_callee_name c"
  by (simp add: spec_callee_name_def redirect_def split: option.splits)

lemma redirect_uses_push [simp]:
  assumes "spec_is_push_for m c p"
  shows "spec_is_push_for m c (redirect_uses \<sigma> p)"
proof -
  have l: "length (operands p) = 3" and o: "opc p = Call"
    and f: "operands p ! 0 = Func ''__afl_ei_push_call''"
    and n: "operands p ! 2 = spec_callee_name c"
    using assms by (simp_all add: spec_is_push_for_def)
  obtain cid where i: "operands p ! 1 = ConstantInt32 cid" and b: "unat cid < m"
    using assms by (auto simp: spec_is_push_for_def split: val.splits)
  have "redirect \<sigma> (operands p ! 0) = operands p ! 0"
    "redirect \<sigma> (operands p ! 1) = operands p ! 1"
    using f i by (simp_all add: redirect_def)
  moreover have "redirect \<sigma> (operands p ! 2) = operands p ! 2"
    by (simp add: n)
  ultimately show ?thesis using l o f i b n by (simp add: spec_is_push_for_def)
qed

lemma push_for_redirected [simp]:
  "spec_is_push_for m (redirect_uses \<sigma> c) p = spec_is_push_for m c p"
  by (simp add: spec_is_push_for_def)

lemma redirect_uses_pop [simp]: "spec_is_pop q \<Longrightarrow> spec_is_pop (redirect_uses \<sigma> q)"
  by (simp add: spec_is_pop_def redirect_def)

lemma redirect_uses_same [simp]:
  "spec_same_insn i (redirect_uses \<sigma> c) = spec_same_insn i c"
  "spec_same_insn (redirect_uses \<sigma> i) c = spec_same_insn i c"
  by (simp_all add: spec_same_insn_def)

lemma redirect_uses_call_to [simp]:
  "is_call_to f (redirect_uses \<sigma> c) = is_call_to f c"
  by (simp add: is_call_to_def)

lemma redirect_uses_fread_call [simp]:
  "is_fread_call FRead (redirect_uses \<sigma> c) = is_fread_call FRead c"
  by (simp add: is_fread_call_def)

lemma bracketed_call_iff:
  "opc i = Call \<Longrightarrow>
   spec_bracketed m (i # is) out =
     (\<exists>p c q out'. out = p # c # q # out' \<and> spec_is_push_for m i p
        \<and> (spec_same_insn i c \<or> is_call_to ''__afl_ei_fread'' c)
        \<and> spec_is_pop q \<and> spec_bracketed m is out')"
  by (auto split: list.splits)

lemma bracketed_other_iff:
  "opc i \<noteq> Call \<Longrightarrow>
   spec_bracketed m (i # is) out =
     (\<exists>i' out'. out = i' # out' \<and> spec_same_insn i i' \<and> spec_bracketed m is out')"
  by (auto split: list.splits)

declare spec_bracketed.simps(2) [simp del]

lemma bracketed_append:
  "spec_bracketed m xs o1 \<Longrightarrow> spec_bracketed m ys o2 \<Longrightarrow> spec_bracketed m (xs @ ys) (o1 @ o2)"
proof (induction xs arbitrary: o1)
  case Nil then show ?case by simp
next
  case (Cons i xs)
  show ?case
  proof (cases "opc i = Call")
    case True
    then show ?thesis using Cons by (auto simp: bracketed_call_iff)
  next
    case False
    then show ?thesis using Cons by (auto simp: bracketed_other_iff)
  qed
qed

lemma bracketed_redirect_out:
  "spec_bracketed m xs out \<Longrightarrow> spec_bracketed m xs (map (redirect_uses \<sigma>) out)"
proof (induction xs arbitrary: out)
  case Nil then show ?case by simp
next
  case (Cons i xs)
  show ?case
  proof (cases "opc i = Call")
    case True
    then show ?thesis using Cons by (auto simp: bracketed_call_iff)
  next
    case False
    then show ?thesis using Cons by (auto simp: bracketed_other_iff)
  qed
qed

lemma bracketed_redirect_in:
  "spec_bracketed m (xs @ map (redirect_uses \<sigma>) ys) out = spec_bracketed m (xs @ ys) out"
proof (induction xs arbitrary: out)
  case Nil
  show ?case
  proof (induction ys arbitrary: out)
    case Nil show ?case by simp
  next
    case (Cons i ys)
    show ?case
    proof (cases "opc i = Call")
      case True
      then show ?thesis using Cons by (simp add: bracketed_call_iff)
    next
      case False
      then show ?thesis using Cons by (simp add: bracketed_other_iff)
    qed
  qed
next
  case (Cons i xs)
  show ?case
  proof (cases "opc i = Call")
    case True
    then show ?thesis using Cons by (simp add: bracketed_call_iff)
  next
    case False
    then show ?thesis using Cons by (simp add: bracketed_other_iff)
  qed
qed

lemma drawn_id_below: "0 < m \<Longrightarrow> unat (of_nat (r mod m) :: u32) < m"
  using of_nat_le [of "r mod m"] by (simp add: le_less_trans)

lemma ei_while_bracketed:
  assumes m: "0 < MAP_SIZE e"
  shows "ei_while e FRead (st, pre, post) dn todo = ((st', pre', post'), out) \<Longrightarrow>
         spec_bracketed (MAP_SIZE e) dn0 dn \<Longrightarrow>
         (\<exists>\<sigma>. pre' = map (map (redirect_uses \<sigma>)) pre \<and> post' = map (map (redirect_uses \<sigma>)) post)
         \<and> spec_bracketed (MAP_SIZE e) (dn0 @ todo) out"
proof (induction "length todo" arbitrary: todo st pre post dn dn0)
  case 0
  then have "pre' = map (map (redirect_uses (\<lambda>n. n))) pre" "post' = map (map (redirect_uses (\<lambda>n. n))) post"
    by (simp_all add: map_idI)
  then show ?case using 0 by auto
next
  case (Suc n)
  then obtain Insn rest where todo: "todo = Insn # rest" and n: "n = length rest"
    by (cases todo) auto
  consider (other) "opc Insn \<noteq> Call"
    | (call) "opc Insn = Call" "\<not> is_fread_call FRead Insn"
    | (fread) "is_fread_call FRead Insn" by (auto simp: is_fread_call_def)
  then show ?case
  proof cases
    case other
    have b: "spec_bracketed (MAP_SIZE e) (dn0 @ [Insn]) (dn @ [Insn])"
      using Suc.prems(2) other
      by (intro bracketed_append) (simp_all add: bracketed_other_iff spec_same_insn_def)
    show ?thesis
      using Suc.hyps(1) [OF n _ b] Suc.prems(1) other by (simp add: todo ei_while_other)
  next
    case call
    let ?p = "\<lparr>iid = next_iid st, opc = Call,
                operands = [Func ''__afl_ei_push_call'',
                            ConstantInt32 (of_nat (random e (rand_calls st) mod MAP_SIZE e)),
                            spec_callee_name Insn],
                nosanitize = False\<rparr>"
    let ?q = "\<lparr>iid = Suc (next_iid st), opc = Call, operands = [Func ''__afl_ei_pop_return''],
                nosanitize = False\<rparr>"
    have "spec_bracketed (MAP_SIZE e) [Insn] [?p, Insn, ?q]"
      using call m by (simp add: bracketed_call_iff spec_is_push_for_def spec_is_pop_def
          spec_same_insn_def drawn_id_below)
    then have b: "spec_bracketed (MAP_SIZE e) (dn0 @ [Insn]) (dn @ [?p, Insn, ?q])"
      using Suc.prems(2) by (intro bracketed_append)
    show ?thesis
      using Suc.hyps(1) [OF n _ b] Suc.prems(1) call by (simp add: todo ei_while_call)
  next
    case fread
    define \<rho> where "\<rho> = (\<lambda>n::nat. n)(iid Insn := Suc (next_iid st))"
    let ?p = "\<lparr>iid = next_iid st, opc = Call,
                operands = [Func ''__afl_ei_push_call'',
                            ConstantInt32 (of_nat (random e (rand_calls st) mod MAP_SIZE e)),
                            spec_callee_name Insn],
                nosanitize = False\<rparr>"
    let ?w = "redirect_uses \<rho> \<lparr>iid = Suc (next_iid st), opc = Call,
             operands = Func ''__afl_ei_fread'' # arg_operands Insn, nosanitize = False\<rparr>"
    let ?q = "\<lparr>iid = Suc (Suc (next_iid st)), opc = Call, operands = [Func ''__afl_ei_pop_return''],
                nosanitize = False\<rparr>"
    have c: "opc Insn = Call" using fread by (simp add: is_fread_call_def)
    have "spec_bracketed (MAP_SIZE e) [Insn] [?p, ?w, ?q]"
      using c m by (simp add: bracketed_call_iff spec_is_push_for_def spec_is_pop_def
          is_call_to_def getCalledFunction_def redirect_def drawn_id_below)
    moreover have "spec_bracketed (MAP_SIZE e) dn0 (map (redirect_uses \<rho>) dn)"
      using Suc.prems(2) by (rule bracketed_redirect_out)
    ultimately have b: "spec_bracketed (MAP_SIZE e) (dn0 @ [Insn]) (map (redirect_uses \<rho>) dn @ [?p, ?w, ?q])"
      by (intro bracketed_append)
    have n': "n = length (map (redirect_uses \<rho>) rest)" using n by simp
    have run: "ei_while e FRead
        (st\<lparr>rand_calls := Suc (rand_calls st), next_iid := Suc (Suc (Suc (next_iid st)))\<rparr>,
         map (map (redirect_uses \<rho>)) pre, map (map (redirect_uses \<rho>)) post)
        (map (redirect_uses \<rho>) dn @ [?p, ?w, ?q]) (map (redirect_uses \<rho>) rest)
        = ((st', pre', post'), out)"
      using Suc.prems(1) fread by (simp add: todo ei_while_fread rauw_redirect \<rho>_def Let_def)
    from Suc.hyps(1) [OF n' run b]
    obtain \<sigma> where s: "pre' = map (map (redirect_uses \<sigma>)) (map (map (redirect_uses \<rho>)) pre)"
        "post' = map (map (redirect_uses \<sigma>)) (map (map (redirect_uses \<rho>)) post)"
      and br: "spec_bracketed (MAP_SIZE e) ((dn0 @ [Insn]) @ map (redirect_uses \<rho>) rest) out"
      by auto
    have "spec_bracketed (MAP_SIZE e) ((dn0 @ [Insn]) @ rest) out"
      using br by (simp only: bracketed_redirect_in)
    then have "spec_bracketed (MAP_SIZE e) (dn0 @ todo) out"
      by (simp add: todo)
    moreover have "pre' = map (map (redirect_uses (\<sigma> \<circ> \<rho>))) pre" "post' = map (map (redirect_uses (\<sigma> \<circ> \<rho>))) post"
      using s by simp_all
    ultimately show ?thesis by blast
  qed
qed

lemma ei_block_bracketed:
  assumes m: "0 < MAP_SIZE e" and k: "k < length bbs0" and len: "length bbs = length bbs0"
    and dn: "list_all2 (spec_bracketed (MAP_SIZE e)) (take k bbs0) (take k bbs)"
    and td: "list_all2 (\<lambda>x y. \<exists>\<sigma>. y = map (redirect_uses \<sigma>) x) (drop k bbs0) (drop k bbs)"
    and run: "ei_block e FRead k (st, bbs) = (st', bbs')"
  shows "length bbs' = length bbs0
       \<and> list_all2 (spec_bracketed (MAP_SIZE e)) (take (Suc k) bbs0) (take (Suc k) bbs')
       \<and> list_all2 (\<lambda>x y. \<exists>\<sigma>. y = map (redirect_uses \<sigma>) x) (drop (Suc k) bbs0) (drop (Suc k) bbs')"
proof -
  obtain ctx1 BB' where
    w0: "ei_while e FRead (st, take k bbs, drop (Suc k) bbs) [] (bbs ! k) = (ctx1, BB')"
    by (cases "ei_while e FRead (st, take k bbs, drop (Suc k) bbs) [] (bbs ! k)")
  obtain st1 pre' post' where "ctx1 = (st1, pre', post')"
    by (cases ctx1)
  with w0 have
    w: "ei_while e FRead (st, take k bbs, drop (Suc k) bbs) [] (bbs ! k) = ((st1, pre', post'), BB')"
    by simp
  have bbs': "bbs' = pre' @ [BB'] @ post'"
    using run w by (simp add: ei_block_def)
  from ei_while_bracketed [OF m w, of "[]"]
  obtain \<sigma> where pre': "pre' = map (map (redirect_uses \<sigma>)) (take k bbs)"
    and post': "post' = map (map (redirect_uses \<sigma>)) (drop (Suc k) bbs)"
    and br: "spec_bracketed (MAP_SIZE e) (bbs ! k) BB'"
    by auto
  have lp: "length pre' = k" using pre' k len by simp
  have split0: "drop k bbs0 = bbs0 ! k # drop (Suc k) bbs0"
    using k by (simp add: Cons_nth_drop_Suc)
  have split: "drop k bbs = bbs ! k # drop (Suc k) bbs"
    using k len by (simp add: Cons_nth_drop_Suc)
  from td obtain \<sigma>k where cur: "bbs ! k = map (redirect_uses \<sigma>k) (bbs0 ! k)"
    and td': "list_all2 (\<lambda>x y. \<exists>\<sigma>. y = map (redirect_uses \<sigma>) x) (drop (Suc k) bbs0) (drop (Suc k) bbs)"
    unfolding split0 split by auto
  have "spec_bracketed (MAP_SIZE e) ([] @ map (redirect_uses \<sigma>k) (bbs0 ! k)) BB'"
    using br cur by simp
  then have brk: "spec_bracketed (MAP_SIZE e) (bbs0 ! k) BB'"
    by (simp only: bracketed_redirect_in) simp
  have a: "list_all2 (spec_bracketed (MAP_SIZE e)) (take k bbs0) pre'"
    unfolding pre' list_all2_map2
    by (rule list_all2_mono [OF dn]) (rule bracketed_redirect_out)
  have b: "list_all2 (\<lambda>x y. \<exists>\<sigma>. y = map (redirect_uses \<sigma>) x) (drop (Suc k) bbs0) post'"
    unfolding post' list_all2_map2
  proof (rule list_all2_mono [OF td'])
    fix x y assume "\<exists>\<tau>. y = map (redirect_uses \<tau>) x"
    then obtain \<tau> where "y = map (redirect_uses \<tau>) x" ..
    then have "map (redirect_uses \<sigma>) y = map (redirect_uses (\<sigma> \<circ> \<tau>)) x" by simp
    then show "\<exists>\<tau>'. map (redirect_uses \<sigma>) y = map (redirect_uses \<tau>') x"
      by (rule exI [of _ "\<sigma> \<circ> \<tau>"])
  qed
  have t0: "take (Suc k) bbs0 = take k bbs0 @ [bbs0 ! k]"
    using k by (simp add: take_Suc_conv_app_nth)
  have t: "take (Suc k) bbs' = pre' @ [BB']" using lp by (simp add: bbs')
  have d: "drop (Suc k) bbs' = post'" using lp by (simp add: bbs')
  have l: "length bbs' = length bbs0"
    using lp post' k len by (simp add: bbs')
  show ?thesis
    unfolding t0 t d using a b brk l by (simp add: list_all2_appendI)
qed

lemma ei_fold_bracketed:
  assumes m: "0 < MAP_SIZE e"
  shows "k \<le> length bbs0 \<Longrightarrow> length bbs = length bbs0 \<Longrightarrow>
    list_all2 (spec_bracketed (MAP_SIZE e)) (take k bbs0) (take k bbs) \<Longrightarrow>
    list_all2 (\<lambda>x y. \<exists>\<sigma>. y = map (redirect_uses \<sigma>) x) (drop k bbs0) (drop k bbs) \<Longrightarrow>
    fold (ei_block e FRead) [k..<length bbs0] (st, bbs) = (st', bbs') \<Longrightarrow>
    list_all2 (spec_bracketed (MAP_SIZE e)) bbs0 bbs'"
proof (induction "length bbs0 - k" arbitrary: k st bbs)
  case 0
  then show ?case by simp
next
  case (Suc d)
  then have k: "k < length bbs0" by simp
  obtain st1 bbs1 where s1: "ei_block e FRead k (st, bbs) = (st1, bbs1)"
    by (cases "ei_block e FRead k (st, bbs)")
  from ei_block_bracketed [OF m k Suc.prems(2) Suc.prems(3) Suc.prems(4) s1]
  have l: "length bbs1 = length bbs0"
    and a: "list_all2 (spec_bracketed (MAP_SIZE e)) (take (Suc k) bbs0) (take (Suc k) bbs1)"
    and b: "list_all2 (\<lambda>x y. \<exists>\<sigma>. y = map (redirect_uses \<sigma>) x) (drop (Suc k) bbs0) (drop (Suc k) bbs1)"
    by simp_all
  have f: "fold (ei_block e FRead) [Suc k..<length bbs0] (st1, bbs1) = (st', bbs')"
    using Suc.prems(5) k s1 by (simp add: upt_conv_Cons)
  have d: "d = length bbs0 - Suc k" using Suc.hyps(2) by simp
  show ?case
    using Suc.hyps(1) [OF d _ l a b f] k by simp
qed

lemma ei_function_bracketed:
  assumes m: "0 < MAP_SIZE e" and run: "ei_function e FRead st F = (F', st')"
  shows "list_all2 (spec_bracketed (MAP_SIZE e)) (blocks F) (blocks F')"
proof -
  obtain st1 bbs' where
    f: "fold (ei_block e FRead) [0..<length (blocks F)] (st, blocks F) = (st1, bbs')"
    by (cases "fold (ei_block e FRead) [0..<length (blocks F)] (st, blocks F)")
  have F': "blocks F' = bbs'" using run f by (auto simp: ei_function_def)
  have "list_all2 (\<lambda>x y. \<exists>\<sigma>. y = map (redirect_uses \<sigma>) x) (blocks F) (blocks F)"
  proof (rule list_all2_all_nthI)
    fix n
    have "blocks F ! n = map (redirect_uses (\<lambda>n. n)) (blocks F ! n)" by (simp add: map_idI)
    then show "\<exists>\<sigma>. blocks F ! n = map (redirect_uses \<sigma>) (blocks F ! n)"
      by (rule exI [of _ "\<lambda>n. n"])
  qed simp
  then have "list_all2 (spec_bracketed (MAP_SIZE e)) (blocks F) bbs'"
    using ei_fold_bracketed [OF m, of 0 "blocks F" "blocks F" FRead st st1 bbs'] f by simp
  then show ?thesis by (simp add: F')
qed

text \<open>The stack across a bracketed block.\<close>

lemma push_runs:
  assumes "spec_is_push_for m c p"
  shows "\<exists>cid nm. run_calls callee (p # rest) stk = run_calls callee rest ((cid, nm) # stk)"
proof -
  have l: "length (operands p) = 3" and o: "opc p = Call"
    and f: "operands p ! 0 = Func ''__afl_ei_push_call''"
    using assms by (simp_all add: spec_is_push_for_def)
  obtain cid where i: "operands p ! 1 = ConstantInt32 cid"
    using assms by (auto simp: spec_is_push_for_def split: val.splits)
  obtain a b c' where ops: "operands p = [a, b, c']"
    using l by (auto simp: numeral_3_eq_3 length_Suc_conv)
  then have "operands p = [Func ''__afl_ei_push_call'', ConstantInt32 cid, c']"
    using f i by simp
  then show ?thesis using o
    by (auto simp: is_call_to_def getCalledFunction_def arg_operands_def afl_ei_push_call_def)
qed

lemma pop_runs:
  assumes "spec_is_pop q"
  shows "run_calls callee (q # rest) (fr # stk) = run_calls callee rest stk"
  using assms
  by (simp add: spec_is_pop_def is_call_to_def getCalledFunction_def afl_ei_pop_return_def)

lemma bracketed_depth:
  assumes bal: "\<And>c s s'. callee c s = Some s' \<Longrightarrow> length s' = length s"
  shows "spec_bracketed m inp out \<Longrightarrow>
    (\<forall>i \<in> set inp. \<not> is_call_to ''__afl_ei_push_call'' i \<and> \<not> is_call_to ''__afl_ei_pop_return'' i) \<Longrightarrow>
    (\<forall>stk'. run_calls callee out stk = Some stk' \<longrightarrow> length stk' = length stk)
    \<and> ((\<forall>c s. callee c s \<noteq> None) \<longrightarrow> run_calls callee out stk \<noteq> None)"
proof (induction inp arbitrary: out stk)
  case Nil
  then show ?case by simp
next
  case (Cons i inp)
  show ?case
  proof (cases "opc i = Call")
    case False
    then obtain i' out' where out: "out = i' # out'" and s: "spec_same_insn i i'"
      and b: "spec_bracketed m inp out'"
      using Cons.prems(1) by (auto simp: bracketed_other_iff)
    have "run_calls callee out stk = run_calls callee out' stk"
      using False s by (simp add: out spec_same_insn_def is_call_to_def)
    then show ?thesis using Cons.IH [OF b, of stk] Cons.prems(2) by simp
  next
    case True
    then obtain p c q out' where out: "out = p # c # q # out'"
      and p: "spec_is_push_for m i p"
      and c: "spec_same_insn i c \<or> is_call_to ''__afl_ei_fread'' c"
      and q: "spec_is_pop q" and b: "spec_bracketed m inp out'"
      using Cons.prems(1) by (auto simp: bracketed_call_iff)
    have ni: "\<not> is_call_to ''__afl_ei_push_call'' i \<and> \<not> is_call_to ''__afl_ei_pop_return'' i"
      using Cons.prems(2) by simp
    have cc: "opc c = Call" "\<not> is_call_to ''__afl_ei_push_call'' c"
      "\<not> is_call_to ''__afl_ei_pop_return'' c"
      using c True ni by (auto simp: spec_same_insn_def is_call_to_def)
    obtain cid nm where
      r1: "run_calls callee out stk = run_calls callee (c # q # out') ((cid, nm) # stk)"
      using push_runs [OF p] unfolding out by blast
    show ?thesis
    proof (cases "callee c ((cid, nm) # stk)")
      case None
      then show ?thesis using r1 cc by auto
    next
      case (Some s1)
      then have "length s1 = Suc (length stk)" using bal by fastforce
      then obtain fr s2 where s1: "s1 = fr # s2" and l2: "length s2 = length stk"
        by (cases s1) auto
      have "run_calls callee out stk = run_calls callee out' s2"
        using r1 cc Some s1 pop_runs [OF q] by simp
      then show ?thesis using Cons.IH [OF b, of s2] Cons.prems(2) l2 by simp
    qed
  qed
qed

lemma reader_module_run:
  "ExecutionIndexing_runOnModule env_default reader_pass reader_module =
     (reader_module_indexed, \<lparr>rand_calls = 2, next_iid = 9\<rparr>)"
  by (simp add: ExecutionIndexing_runOnModule_def reader_module_def reader_pass_def getFunction_def
     ei_function_def ei_block_def ei_while_fread ei_while_call ei_while_other is_fread_call_def
     call_foo_def call_fread_def use_nbytes_def ret_nbytes_def getCalledFunction_def env_default_def
     spec_callee_name_def replaceAllUsesWith_def arg_operands_def Let_def reader_module_indexed_def)

lemma ei_functions_each:
  "ei_functions e FRead st Fs = (Fs', st') \<Longrightarrow>
   list_all2 (\<lambda>F F'. \<exists>s s'. ei_function e FRead s F = (F', s')) Fs Fs'"
proof (induction Fs arbitrary: st Fs' st')
  case Nil then show ?case by simp
next
  case (Cons F Fs)
  obtain F1 st1 where f: "ei_function e FRead st F = (F1, st1)"
    by (cases "ei_function e FRead st F")
  obtain Fs1 st2 where g: "ei_functions e FRead st1 Fs = (Fs1, st2)"
    by (cases "ei_functions e FRead st1 Fs")
  have "Fs' = F1 # Fs1" using Cons.prems f g by simp
  then show ?case using Cons.IH [OF g] f by auto
qed

lemma ei_function_fname: "ei_function e FRead st F = (F', st') \<Longrightarrow> fname F' = fname F"
  by (auto simp: ei_function_def split: prod.splits)

lemma runOnModule_functions:
  assumes "ExecutionIndexing_runOnModule e st M = (M', st')"
  shows "\<exists>decls. (\<forall>D \<in> set decls. blocks D = [])
     \<and> list_all2 (\<lambda>F F'. \<exists>s s'. ei_function e (getFunction M ''fread'') s F = (F', s'))
          (mfunctions M @ decls) (mfunctions M')"
proof -
  define decls where "decls =
     [\<lparr>fname = ''__afl_ei_push_call'', blocks = []\<rparr>,
      \<lparr>fname = ''__afl_ei_pop_return'', blocks = []\<rparr>]
     @ (if getFunction M ''fread'' = None then []
        else [\<lparr>fname = ''__afl_ei_fread'', blocks = []\<rparr>])"
  obtain Fs s1 where
    r: "ei_functions e (getFunction M ''fread'') st (mfunctions M @ decls) = (Fs, s1)"
    by (cases "ei_functions e (getFunction M ''fread'') st (mfunctions M @ decls)")
  then have "mfunctions M' = Fs"
    using assms by (auto simp: ExecutionIndexing_runOnModule_def decls_def Let_def)
  moreover have "\<forall>D \<in> set decls. blocks D = []" by (simp add: decls_def)
  ultimately show ?thesis using ei_functions_each [OF r] by blast
qed

text \<open>
  C3. In the module the pass returns, every function of the input stands under its name
  with every block bracketed: each call has one push of its frame (a call-site id below
  \<open>MAP_SIZE\<close>, the name of the called function or the null pointer) right before it and
  one pop right after it. And when no function of the input calls the two runtime
  functions itself and every called function that returns does so at the stack depth at
  which it was entered, every block of the output leaves the shadow stack at the depth it
  found, and runs through whenever every called function returns.
\<close>

theorem calls_are_bracketed:
  assumes "0 < MAP_SIZE e" and "ExecutionIndexing_runOnModule e st M = (M', st')"
  shows "list_all2 (\<lambda>F F'. fname F' = fname F
            \<and> list_all2 (spec_bracketed (MAP_SIZE e)) (blocks F) (blocks F'))
          (mfunctions M) (take (length (mfunctions M)) (mfunctions M'))
       \<and> ((\<forall>c s s'. callee c s = Some s' \<longrightarrow> length s' = length s)
           \<and> (\<forall>F \<in> set (mfunctions M). \<forall>B \<in> set (blocks F). \<forall>i \<in> set B.
                 \<not> is_call_to ''__afl_ei_push_call'' i \<and> \<not> is_call_to ''__afl_ei_pop_return'' i)
          \<longrightarrow> (\<forall>F' \<in> set (mfunctions M'). \<forall>B' \<in> set (blocks F'). \<forall>stk.
                 (\<forall>stk'. run_calls callee B' stk = Some stk' \<longrightarrow> length stk' = length stk)
                 \<and> ((\<forall>c s. callee c s \<noteq> None) \<longrightarrow> run_calls callee B' stk \<noteq> None)))"
proof -
  from runOnModule_functions [OF assms(2)]
  obtain decls where d: "\<forall>D \<in> set decls. blocks D = []"
    and each: "list_all2 (\<lambda>F F'. \<exists>s s'. ei_function e (getFunction M ''fread'') s F = (F', s'))
          (mfunctions M @ decls) (mfunctions M')"
    by blast
  have each': "list_all2 (\<lambda>F F'. fname F' = fname F
            \<and> list_all2 (spec_bracketed (MAP_SIZE e)) (blocks F) (blocks F'))
          (mfunctions M @ decls) (mfunctions M')"
    by (rule list_all2_mono [OF each])
       (auto simp: ei_function_fname ei_function_bracketed [OF assms(1)])
  have len: "length (mfunctions M') = length (mfunctions M) + length decls"
    using each by (auto dest: list_all2_lengthD)
  have first: "list_all2 (\<lambda>F F'. fname F' = fname F
            \<and> list_all2 (spec_bracketed (MAP_SIZE e)) (blocks F) (blocks F'))
          (mfunctions M) (take (length (mfunctions M)) (mfunctions M'))"
    using list_all2_takeI [OF each', of "length (mfunctions M)"] by simp
  have second: "(\<forall>stk'. run_calls callee B' stk = Some stk' \<longrightarrow> length stk' = length stk)
                 \<and> ((\<forall>c s. callee c s \<noteq> None) \<longrightarrow> run_calls callee B' stk \<noteq> None)"
    if bal: "\<forall>c s s'. callee c s = Some s' \<longrightarrow> length s' = length s"
      and clean: "\<forall>F \<in> set (mfunctions M). \<forall>B \<in> set (blocks F). \<forall>i \<in> set B.
                 \<not> is_call_to ''__afl_ei_push_call'' i \<and> \<not> is_call_to ''__afl_ei_pop_return'' i"
      and F': "F' \<in> set (mfunctions M')" and B': "B' \<in> set (blocks F')"
    for F' B' stk
  proof -
    from F' obtain n where n: "n < length (mfunctions M')" and Fn: "mfunctions M' ! n = F'"
      by (auto simp: in_set_conv_nth)
    define F where "F = (mfunctions M @ decls) ! n"
    have bF: "list_all2 (spec_bracketed (MAP_SIZE e)) (blocks F) (blocks F')"
      using list_all2_nthD2 [OF each' n] Fn by (simp add: F_def)
    from B' obtain k where k: "k < length (blocks F')" and Bk: "blocks F' ! k = B'"
      by (auto simp: in_set_conv_nth)
    define B where "B = blocks F ! k"
    have bB: "spec_bracketed (MAP_SIZE e) B B'"
      using list_all2_nthD2 [OF bF k] Bk by (simp add: B_def)
    have kF: "k < length (blocks F)" using bF k by (auto dest: list_all2_lengthD)
    have "F \<in> set (mfunctions M)"
    proof (cases "n < length (mfunctions M)")
      case True then show ?thesis by (simp add: F_def nth_append)
    next
      case False
      then have "F \<in> set decls" using n len by (simp add: F_def nth_append)
      then show ?thesis using d kF by auto
    qed
    moreover have "B \<in> set (blocks F)" using kF by (simp add: B_def)
    ultimately have "\<forall>i \<in> set B.
        \<not> is_call_to ''__afl_ei_push_call'' i \<and> \<not> is_call_to ''__afl_ei_pop_return'' i"
      using clean by blast
    then show ?thesis using bracketed_depth [of callee "MAP_SIZE e" B B' stk] bal bB by blast
  qed
  show ?thesis using first second by blast
qed

theorem calls_are_bracketed_witness:
  "list_all2 (\<lambda>F F'. fname F' = fname F
            \<and> list_all2 (spec_bracketed 65536) (blocks F) (blocks F'))
          (mfunctions reader_module) (take 3 (mfunctions reader_module_indexed))
   \<and> run_calls (\<lambda>c s. Some s) (hd (blocks (hd (mfunctions reader_module_indexed)))) [] \<noteq> None"
proof -
  have m: "0 < MAP_SIZE env_default" and sz: "MAP_SIZE env_default = 65536"
    by (simp_all add: env_default_def)
  have len: "length (mfunctions reader_module) = 3" by (simp add: reader_module_def)
  have bal: "\<forall>c s s'. (\<lambda>c s. Some s) c s = Some s' \<longrightarrow> length s' = length (s :: frame list)"
    by simp
  have clean: "\<forall>F \<in> set (mfunctions reader_module). \<forall>B \<in> set (blocks F). \<forall>i \<in> set B.
      \<not> is_call_to ''__afl_ei_push_call'' i \<and> \<not> is_call_to ''__afl_ei_pop_return'' i"
    by (simp add: reader_module_def is_call_to_def getCalledFunction_def call_foo_def
        call_fread_def use_nbytes_def ret_nbytes_def)
  have ret: "\<forall>c s. (\<lambda>c s. Some s) c (s :: frame list) \<noteq> None" by simp
  note t = calls_are_bracketed [OF m reader_module_run, of "\<lambda>c s. Some s"]
  have one: "list_all2 (\<lambda>F F'. fname F' = fname F
            \<and> list_all2 (spec_bracketed 65536) (blocks F) (blocks F'))
          (mfunctions reader_module) (take 3 (mfunctions reader_module_indexed))"
    using t sz len by simp
  have F': "hd (mfunctions reader_module_indexed) \<in> set (mfunctions reader_module_indexed)"
    and B': "hd (blocks (hd (mfunctions reader_module_indexed)))
              \<in> set (blocks (hd (mfunctions reader_module_indexed)))"
    by (simp_all add: reader_module_indexed_def)
  have "run_calls (\<lambda>c s. Some s) (hd (blocks (hd (mfunctions reader_module_indexed)))) []
          \<noteq> None"
    using t bal clean ret F' B' by blast
  with one show ?thesis by simp
qed

section \<open>Properties: the reads rerouted\<close>

lemma rerouted_call_iff:
  "opc i = Call \<Longrightarrow>
   spec_rerouted m FRead \<sigma> (i # is) out =
     (\<exists>p c q out'. out = p # c # q # out' \<and> spec_is_push_for m i p
        \<and> (if is_fread_call FRead i then spec_is_wrapper_of \<sigma> i c else c = redirect_uses \<sigma> i)
        \<and> spec_is_pop q \<and> spec_rerouted m FRead \<sigma> is out')"
  by (auto split: list.splits)

lemma rerouted_other_iff:
  "opc i \<noteq> Call \<Longrightarrow>
   spec_rerouted m FRead \<sigma> (i # is) out =
     (\<exists>out'. out = redirect_uses \<sigma> i # out' \<and> spec_rerouted m FRead \<sigma> is out')"
  by (auto split: list.splits)

declare spec_rerouted.simps(2) [simp del]

lemma arg_operands_redirect [simp]:
  "arg_operands (redirect_uses \<sigma> i) = map (redirect \<sigma>) (arg_operands i)"
  by (simp add: arg_operands_def map_tl)

lemma wrapper_redirect_out:
  "spec_is_wrapper_of \<sigma> i c \<Longrightarrow> \<tau> (\<sigma> (iid i)) = \<sigma> (iid i) \<Longrightarrow>
   spec_is_wrapper_of (\<tau> \<circ> \<sigma>) i (redirect_uses \<tau> c)"
  by (simp add: spec_is_wrapper_of_def redirect_comp) (simp add: redirect_def)

lemma wrapper_redirect_in:
  "spec_is_wrapper_of \<tau> (redirect_uses \<rho> i) c \<Longrightarrow> \<rho> (iid i) = iid i \<Longrightarrow>
   spec_is_wrapper_of (\<tau> \<circ> \<rho>) i c"
  by (simp add: spec_is_wrapper_of_def redirect_comp)

text \<open>A later redirection of the output, and an earlier redirection of the input.\<close>

lemma rerouted_redirect_out:
  "spec_rerouted m FRead \<sigma> xs out \<Longrightarrow>
   (\<forall>i \<in> set xs. is_fread_call FRead i \<longrightarrow> \<tau> (\<sigma> (iid i)) = \<sigma> (iid i)) \<Longrightarrow>
   spec_rerouted m FRead (\<tau> \<circ> \<sigma>) xs (map (redirect_uses \<tau>) out)"
proof (induction xs arbitrary: out)
  case Nil then show ?case by simp
next
  case (Cons i xs)
  have side: "\<forall>i \<in> set xs. is_fread_call FRead i \<longrightarrow> \<tau> (\<sigma> (iid i)) = \<sigma> (iid i)"
    using Cons.prems(2) by simp
  show ?case
  proof (cases "opc i = Call")
    case True
    then obtain p c q out' where out: "out = p # c # q # out'"
      and p: "spec_is_push_for m i p"
      and c: "if is_fread_call FRead i then spec_is_wrapper_of \<sigma> i c else c = redirect_uses \<sigma> i"
      and q: "spec_is_pop q" and r: "spec_rerouted m FRead \<sigma> xs out'"
      using Cons.prems(1) by (auto simp: rerouted_call_iff)
    have c': "if is_fread_call FRead i then spec_is_wrapper_of (\<tau> \<circ> \<sigma>) i (redirect_uses \<tau> c)
              else redirect_uses \<tau> c = redirect_uses (\<tau> \<circ> \<sigma>) i"
      using c Cons.prems(2) by (auto simp: wrapper_redirect_out split: if_splits)
    have "spec_rerouted m FRead (\<tau> \<circ> \<sigma>) (i # xs)
            (redirect_uses \<tau> p # redirect_uses \<tau> c # redirect_uses \<tau> q
             # map (redirect_uses \<tau>) out')"
      unfolding rerouted_call_iff [OF True]
      using p c' q Cons.IH [OF r side] by (simp add: comp_def)
    then show ?thesis by (simp add: out comp_def)
  next
    case False
    then obtain out' where out: "out = redirect_uses \<sigma> i # out'"
      and r: "spec_rerouted m FRead \<sigma> xs out'"
      using Cons.prems(1) by (auto simp: rerouted_other_iff)
    have "spec_rerouted m FRead (\<tau> \<circ> \<sigma>) (i # xs)
            (redirect_uses (\<tau> \<circ> \<sigma>) i # map (redirect_uses \<tau>) out')"
      unfolding rerouted_other_iff [OF False]
      using Cons.IH [OF r side] by (simp add: comp_def)
    then show ?thesis by (simp add: out comp_def)
  qed
qed

lemma rerouted_redirect_in:
  "spec_rerouted m FRead \<tau> (map (redirect_uses \<rho>) xs) out \<Longrightarrow>
   (\<forall>i \<in> set xs. is_fread_call FRead i \<longrightarrow> \<rho> (iid i) = iid i) \<Longrightarrow>
   spec_rerouted m FRead (\<tau> \<circ> \<rho>) xs out"
proof (induction xs arbitrary: out)
  case Nil then show ?case by simp
next
  case (Cons i xs)
  have side: "\<forall>i \<in> set xs. is_fread_call FRead i \<longrightarrow> \<rho> (iid i) = iid i"
    using Cons.prems(2) by simp
  have pre: "spec_rerouted m FRead \<tau> (redirect_uses \<rho> i # map (redirect_uses \<rho>) xs) out"
    using Cons.prems(1) by simp
  show ?case
  proof (cases "opc i = Call")
    case True
    then have True': "opc (redirect_uses \<rho> i) = Call" by simp
    obtain p c q out' where out: "out = p # c # q # out'"
      and p: "spec_is_push_for m i p"
      and c: "if is_fread_call FRead i then spec_is_wrapper_of \<tau> (redirect_uses \<rho> i) c
              else c = redirect_uses \<tau> (redirect_uses \<rho> i)"
      and q: "spec_is_pop q"
      and r: "spec_rerouted m FRead \<tau> (map (redirect_uses \<rho>) xs) out'"
      using pre unfolding rerouted_call_iff [OF True'] by auto
    have c': "if is_fread_call FRead i then spec_is_wrapper_of (\<tau> \<circ> \<rho>) i c
              else c = redirect_uses (\<tau> \<circ> \<rho>) i"
      using c Cons.prems(2) by (auto simp: wrapper_redirect_in split: if_splits)
    show ?thesis
      unfolding rerouted_call_iff [OF True] out
      using p c' q Cons.IH [OF r side] by (simp add: comp_def)
  next
    case False
    then have False': "opc (redirect_uses \<rho> i) \<noteq> Call" by simp
    obtain out' where out: "out = redirect_uses \<tau> (redirect_uses \<rho> i) # out'"
      and r: "spec_rerouted m FRead \<tau> (map (redirect_uses \<rho>) xs) out'"
      using pre unfolding rerouted_other_iff [OF False'] by auto
    show ?thesis
      unfolding rerouted_other_iff [OF False] out
      using Cons.IH [OF r side] by (simp add: comp_def)
  qed
qed

text \<open>The operands of a rerouted block, and the calls that are left in it.\<close>

lemma push_operands:
  assumes "spec_is_push_for m c p"
  shows "InsnRes n \<notin> set (operands p)"
proof -
  have l: "length (operands p) = 3"
    and f: "operands p ! 0 = Func ''__afl_ei_push_call''"
    and nm: "operands p ! 2 = spec_callee_name c"
    using assms by (simp_all add: spec_is_push_for_def)
  obtain cid where i: "operands p ! 1 = ConstantInt32 cid"
    using assms by (auto simp: spec_is_push_for_def split: val.splits)
  obtain a b c' where ops: "operands p = [a, b, c']"
    using l by (auto simp: numeral_3_eq_3 length_Suc_conv)
  then have "operands p = [Func ''__afl_ei_push_call'', ConstantInt32 cid, spec_callee_name c]"
    using f i nm by simp
  then show ?thesis by (auto simp: spec_callee_name_def split: option.splits if_splits)
qed

lemma redirect_range: "InsnRes n = redirect \<sigma> v \<Longrightarrow> n \<in> range \<sigma>"
  by (cases v) (auto simp: redirect_def)

lemma rerouted_operands:
  "spec_rerouted m FRead \<sigma> xs out \<Longrightarrow> i' \<in> set out \<Longrightarrow> InsnRes n \<in> set (operands i') \<Longrightarrow>
   n \<in> range \<sigma>"
proof (induction xs arbitrary: out)
  case Nil then show ?case by simp
next
  case (Cons i xs)
  show ?case
  proof (cases "opc i = Call")
    case True
    then obtain p c q out' where out: "out = p # c # q # out'"
      and p: "spec_is_push_for m i p"
      and c: "if is_fread_call FRead i then spec_is_wrapper_of \<sigma> i c else c = redirect_uses \<sigma> i"
      and q: "spec_is_pop q" and r: "spec_rerouted m FRead \<sigma> xs out'"
      using Cons.prems(1) by (auto simp: rerouted_call_iff)
    have cops: "\<And>k. InsnRes k \<in> set (operands c) \<Longrightarrow> k \<in> range \<sigma>"
      using c by (auto simp: spec_is_wrapper_of_def dest: redirect_range split: if_splits)
    from Cons.prems(2) out consider "i' = p" | "i' = c" | "i' = q" | "i' \<in> set out'" by auto
    then show ?thesis
    proof cases
      case 1 then show ?thesis using push_operands [OF p] Cons.prems(3) by simp
    next
      case 2 then show ?thesis using cops Cons.prems(3) by simp
    next
      case 3 then show ?thesis using q Cons.prems(3) by (simp add: spec_is_pop_def)
    next
      case 4 then show ?thesis using Cons.IH [OF r] Cons.prems(3) by simp
    qed
  next
    case False
    then obtain out' where out: "out = redirect_uses \<sigma> i # out'"
      and r: "spec_rerouted m FRead \<sigma> xs out'"
      using Cons.prems(1) by (auto simp: rerouted_other_iff)
    from Cons.prems(2) out consider "i' = redirect_uses \<sigma> i" | "i' \<in> set out'" by auto
    then show ?thesis
    proof cases
      case 1 then show ?thesis using Cons.prems(3) by (auto dest: redirect_range)
    next
      case 2 then show ?thesis using Cons.IH [OF r] Cons.prems(3) by simp
    qed
  qed
qed

lemma rerouted_no_fread:
  assumes fr: "FRead = None \<or> FRead = Some ''fread''"
  shows "spec_rerouted m FRead \<sigma> xs out \<Longrightarrow> i' \<in> set out \<Longrightarrow> \<not> is_fread_call FRead i'"
proof (induction xs arbitrary: out)
  case Nil then show ?case by simp
next
  case (Cons i xs)
  show ?case
  proof (cases "opc i = Call")
    case True
    then obtain p c q out' where out: "out = p # c # q # out'"
      and p: "spec_is_push_for m i p"
      and c: "if is_fread_call FRead i then spec_is_wrapper_of \<sigma> i c else c = redirect_uses \<sigma> i"
      and q: "spec_is_pop q" and r: "spec_rerouted m FRead \<sigma> xs out'"
      using Cons.prems(1) by (auto simp: rerouted_call_iff)
    have ne: "operands p \<noteq> []" using p by (auto simp: spec_is_push_for_def)
    then have "hd (operands p) = Func ''__afl_ei_push_call''"
      using p by (simp add: spec_is_push_for_def hd_conv_nth)
    with ne have np: "\<not> is_fread_call FRead p"
      using fr by (cases "operands p") (auto simp: is_fread_call_def getCalledFunction_def)
    have nq: "\<not> is_fread_call FRead q"
      using q fr by (auto simp: is_fread_call_def getCalledFunction_def spec_is_pop_def)
    have nc: "\<not> is_fread_call FRead c"
    proof (cases "is_fread_call FRead i")
      case True
      then show ?thesis using c fr
        by (auto simp: spec_is_wrapper_of_def is_fread_call_def getCalledFunction_def)
    next
      case False
      then show ?thesis using c by (simp add: is_fread_call_def)
    qed
    from Cons.prems(2) out consider "i' = p" | "i' = c" | "i' = q" | "i' \<in> set out'" by auto
    then show ?thesis using np nc nq Cons.IH [OF r] by cases auto
  next
    case False
    then obtain out' where out: "out = redirect_uses \<sigma> i # out'"
      and r: "spec_rerouted m FRead \<sigma> xs out'"
      using Cons.prems(1) by (auto simp: rerouted_other_iff)
    have "\<not> is_fread_call FRead (redirect_uses \<sigma> i)"
      using False by (simp add: is_fread_call_def)
    then show ?thesis using Cons.prems(2) out Cons.IH [OF r] by auto
  qed
qed

lemma fread_ids_single:
  "fread_ids FRead [xs] = iid ` {i \<in> set xs. is_fread_call FRead i}"
  by (simp add: fread_ids_def)

lemma fread_ids_redirect [simp]:
  "fread_ids FRead [map (redirect_uses \<rho>) xs] = fread_ids FRead [xs]"
proof -
  have "{i \<in> set (map (redirect_uses \<rho>) xs). is_fread_call FRead i}
        = redirect_uses \<rho> ` {i \<in> set xs. is_fread_call FRead i}"
    by auto
  then show ?thesis by (simp add: fread_ids_single image_image)
qed

lemma redirect_uses_id_fun: "redirect_uses (\<lambda>n. n) = (\<lambda>i. i)"
  by (rule ext) simp

lemma ei_while_rerouted:
  assumes m: "0 < MAP_SIZE e"
  shows "ei_while e FRead (st, pre, post) dn todo = ((st', pre', post'), out) \<Longrightarrow>
         distinct (map iid todo) \<Longrightarrow> (\<forall>i \<in> set todo. iid i < next_iid st) \<Longrightarrow>
         \<exists>\<tau> out2. pre' = map (map (redirect_uses \<tau>)) pre
            \<and> post' = map (map (redirect_uses \<tau>)) post
            \<and> out = map (redirect_uses \<tau>) dn @ out2
            \<and> spec_rerouted (MAP_SIZE e) FRead \<tau> todo out2
            \<and> next_iid st \<le> next_iid st'
            \<and> (\<forall>n. \<tau> n \<noteq> n \<longrightarrow> n \<in> fread_ids FRead [todo])
            \<and> (\<forall>n \<in> fread_ids FRead [todo]. next_iid st \<le> \<tau> n)"
proof (induction "length todo" arbitrary: todo st pre post dn)
  case 0
  then have "pre' = pre" "post' = post" "out = dn" "st' = st" "todo = []"
    by simp_all
  then show ?case
    by (intro exI [of _ "\<lambda>n. n"] exI [of _ "[]"])
       (simp add: fread_ids_single redirect_uses_id_fun)
next
  case (Suc n)
  then obtain Insn rest where todo: "todo = Insn # rest" and n: "n = length rest"
    by (cases todo) auto
  have dist: "distinct (map iid rest)" and notin: "iid Insn \<notin> iid ` set rest"
    using Suc.prems(2) by (simp_all add: todo)
  have fresh: "\<forall>i \<in> set rest. iid i < next_iid st" and freshI: "iid Insn < next_iid st"
    using Suc.prems(3) by (simp_all add: todo)
  let ?p = "\<lparr>iid = next_iid st, opc = Call,
                operands = [Func ''__afl_ei_push_call'',
                            ConstantInt32 (of_nat (random e (rand_calls st) mod MAP_SIZE e)),
                            spec_callee_name Insn],
                nosanitize = False\<rparr>"
  have push: "spec_is_push_for (MAP_SIZE e) Insn ?p"
    using m by (simp add: spec_is_push_for_def drawn_id_below)
  consider (other) "opc Insn \<noteq> Call"
    | (call) "opc Insn = Call" "\<not> is_fread_call FRead Insn"
    | (fread) "is_fread_call FRead Insn" by (auto simp: is_fread_call_def)
  then show ?case
  proof cases
    case other
    have run: "ei_while e FRead (st, pre, post) (dn @ [Insn]) rest = ((st', pre', post'), out)"
      using Suc.prems(1) other by (simp add: todo ei_while_other)
    from Suc.hyps(1) [OF n run dist fresh]
    obtain \<tau> out2 where pre': "pre' = map (map (redirect_uses \<tau>)) pre"
      and post': "post' = map (map (redirect_uses \<tau>)) post"
      and out: "out = map (redirect_uses \<tau>) (dn @ [Insn]) @ out2"
      and r: "spec_rerouted (MAP_SIZE e) FRead \<tau> rest out2"
      and mono: "next_iid st \<le> next_iid st'"
      and p1: "\<forall>n. \<tau> n \<noteq> n \<longrightarrow> n \<in> fread_ids FRead [rest]"
      and p2: "\<forall>n \<in> fread_ids FRead [rest]. next_iid st \<le> \<tau> n"
      by blast
    have ids: "fread_ids FRead [todo] = fread_ids FRead [rest]"
      using other by (auto simp: fread_ids_single todo is_fread_call_def)
    have r': "spec_rerouted (MAP_SIZE e) FRead \<tau> todo (redirect_uses \<tau> Insn # out2)"
      using r other by (simp add: todo rerouted_other_iff)
    have out': "out = map (redirect_uses \<tau>) dn @ (redirect_uses \<tau> Insn # out2)"
      using out by simp
    show ?thesis
      using pre' post' out' r' mono p1 p2 unfolding ids by blast
  next
    case call
    let ?q = "\<lparr>iid = Suc (next_iid st), opc = Call, operands = [Func ''__afl_ei_pop_return''],
                nosanitize = False\<rparr>"
    let ?st1 = "st\<lparr>rand_calls := Suc (rand_calls st), next_iid := Suc (Suc (next_iid st))\<rparr>"
    have run: "ei_while e FRead (?st1, pre, post) (dn @ [?p, Insn, ?q]) rest
                 = ((st', pre', post'), out)"
      using Suc.prems(1) call by (simp add: todo ei_while_call)
    have fresh1: "\<forall>i \<in> set rest. iid i < next_iid ?st1" using fresh by auto
    from Suc.hyps(1) [OF n run dist fresh1]
    obtain \<tau> out2 where pre': "pre' = map (map (redirect_uses \<tau>)) pre"
      and post': "post' = map (map (redirect_uses \<tau>)) post"
      and out: "out = map (redirect_uses \<tau>) (dn @ [?p, Insn, ?q]) @ out2"
      and r: "spec_rerouted (MAP_SIZE e) FRead \<tau> rest out2"
      and mono: "next_iid ?st1 \<le> next_iid st'"
      and p1: "\<forall>n. \<tau> n \<noteq> n \<longrightarrow> n \<in> fread_ids FRead [rest]"
      and p2: "\<forall>n \<in> fread_ids FRead [rest]. next_iid ?st1 \<le> \<tau> n"
      by blast
    have ids: "fread_ids FRead [todo] = fread_ids FRead [rest]"
      using call by (auto simp: fread_ids_single todo)
    have r': "spec_rerouted (MAP_SIZE e) FRead \<tau> todo
               (redirect_uses \<tau> ?p # redirect_uses \<tau> Insn # redirect_uses \<tau> ?q # out2)"
      unfolding todo rerouted_call_iff [OF call(1)]
      using r call(2) redirect_uses_push [OF push, of \<tau>]
      by (simp add: spec_is_pop_def redirect_def)
    have out': "out = map (redirect_uses \<tau>) dn
                 @ (redirect_uses \<tau> ?p # redirect_uses \<tau> Insn # redirect_uses \<tau> ?q # out2)"
      using out by simp
    have mono': "next_iid st \<le> next_iid st'" using mono by simp
    have p2': "\<forall>n \<in> fread_ids FRead [rest]. next_iid st \<le> \<tau> n"
      using p2 by fastforce
    show ?thesis
      using pre' post' out' r' mono' p1 p2' unfolding ids by blast
  next
    case fread
    have c: "opc Insn = Call" using fread by (simp add: is_fread_call_def)
    define w where "w = Suc (next_iid st)"
    define \<rho> where "\<rho> = (\<lambda>n::nat. n)(iid Insn := w)"
    let ?w0 = "\<lparr>iid = w, opc = Call,
             operands = Func ''__afl_ei_fread'' # arg_operands Insn, nosanitize = False\<rparr>"
    let ?q = "\<lparr>iid = Suc (Suc (next_iid st)), opc = Call, operands = [Func ''__afl_ei_pop_return''],
                nosanitize = False\<rparr>"
    let ?st1 = "st\<lparr>rand_calls := Suc (rand_calls st), next_iid := Suc (Suc (Suc (next_iid st)))\<rparr>"
    have run: "ei_while e FRead
        (?st1, map (map (redirect_uses \<rho>)) pre, map (map (redirect_uses \<rho>)) post)
        (map (redirect_uses \<rho>) dn @ [?p, redirect_uses \<rho> ?w0, ?q]) (map (redirect_uses \<rho>) rest)
        = ((st', pre', post'), out)"
      using Suc.prems(1) fread
      by (simp add: todo ei_while_fread rauw_redirect \<rho>_def w_def Let_def)
    have n': "n = length (map (redirect_uses \<rho>) rest)" using n by simp
    have dist1: "distinct (map iid (map (redirect_uses \<rho>) rest))"
      using dist by (simp add: comp_def)
    have fresh1: "\<forall>i \<in> set (map (redirect_uses \<rho>) rest). iid i < next_iid ?st1"
      using fresh by auto
    from Suc.hyps(1) [OF n' run dist1 fresh1]
    obtain \<tau>' out2 where
      pre': "pre' = map (map (redirect_uses \<tau>')) (map (map (redirect_uses \<rho>)) pre)"
      and post': "post' = map (map (redirect_uses \<tau>')) (map (map (redirect_uses \<rho>)) post)"
      and out: "out = map (redirect_uses \<tau>')
                        (map (redirect_uses \<rho>) dn @ [?p, redirect_uses \<rho> ?w0, ?q]) @ out2"
      and r: "spec_rerouted (MAP_SIZE e) FRead \<tau>' (map (redirect_uses \<rho>) rest) out2"
      and mono: "next_iid ?st1 \<le> next_iid st'"
      and p1: "\<forall>n. \<tau>' n \<noteq> n \<longrightarrow> n \<in> fread_ids FRead [rest]"
      and p2: "\<forall>n \<in> fread_ids FRead [rest]. next_iid ?st1 \<le> \<tau>' n"
      by (auto simp del: map_map)
    define \<tau> where "\<tau> = \<tau>' \<circ> \<rho>"
    have comp: "\<And>i. redirect_uses \<tau>' (redirect_uses \<rho> i) = redirect_uses \<tau> i"
      by (simp add: \<tau>_def)
    have ids_rest: "fread_ids FRead [rest] \<subseteq> iid ` set rest"
      by (auto simp: fread_ids_single)
    have w_fixed: "\<tau>' w = w"
    proof (rule ccontr)
      assume "\<tau>' w \<noteq> w"
      then have "w \<in> iid ` set rest" using p1 ids_rest by blast
      then show False using fresh by (auto simp: w_def)
    qed
    have tI: "\<tau> (iid Insn) = w" by (simp add: \<tau>_def \<rho>_def w_fixed)
    have tO: "\<And>n. n \<noteq> iid Insn \<Longrightarrow> \<tau> n = \<tau>' n" by (simp add: \<tau>_def \<rho>_def)
    have "\<forall>i \<in> set rest. iid i \<noteq> iid Insn"
    proof (intro ballI notI)
      fix i assume mem: "i \<in> set rest" and eq: "iid i = iid Insn"
      from mem have "iid i \<in> iid ` set rest" by (rule imageI)
      then show False using notin eq by simp
    qed
    then have side: "\<forall>i \<in> set rest. is_fread_call FRead i \<longrightarrow> \<rho> (iid i) = iid i"
      by (simp add: \<rho>_def)
    have rr: "spec_rerouted (MAP_SIZE e) FRead \<tau> rest out2"
      unfolding \<tau>_def using r side by (rule rerouted_redirect_in)
    have wr: "spec_is_wrapper_of \<tau> Insn (redirect_uses \<tau> ?w0)"
      by (simp add: spec_is_wrapper_of_def tI) (simp add: redirect_def)
    have r': "spec_rerouted (MAP_SIZE e) FRead \<tau> todo
               (redirect_uses \<tau>' ?p # redirect_uses \<tau> ?w0 # redirect_uses \<tau>' ?q # out2)"
      unfolding todo rerouted_call_iff [OF c]
      using rr fread wr redirect_uses_push [OF push, of \<tau>']
      by (simp add: spec_is_pop_def redirect_def)
    have out': "out = map (redirect_uses \<tau>) dn
                 @ (redirect_uses \<tau>' ?p # redirect_uses \<tau> ?w0 # redirect_uses \<tau>' ?q # out2)"
      using out by (simp add: comp del: redirect_uses_comp)
    have pre'': "pre' = map (map (redirect_uses \<tau>)) pre"
      and post'': "post' = map (map (redirect_uses \<tau>)) post"
      using pre' post' by (simp_all add: comp comp_def del: redirect_uses_comp)
    have mono': "next_iid st \<le> next_iid st'" using mono by simp
    have ids: "fread_ids FRead [todo] = insert (iid Insn) (fread_ids FRead [rest])"
      using fread by (auto simp: fread_ids_single todo)
    have p1': "\<forall>n. \<tau> n \<noteq> n \<longrightarrow> n \<in> fread_ids FRead [todo]"
      using p1 tO unfolding ids by (metis insertCI)
    have p2': "\<forall>n \<in> fread_ids FRead [todo]. next_iid st \<le> \<tau> n"
    proof
      fix n assume "n \<in> fread_ids FRead [todo]"
      then consider "n = iid Insn" | "n \<noteq> iid Insn" "n \<in> fread_ids FRead [rest]"
        unfolding ids by blast
      then show "next_iid st \<le> \<tau> n"
      proof cases
        case 1 then show ?thesis by (simp add: tI w_def)
      next
        case 2
        then have "next_iid ?st1 \<le> \<tau>' n" using p2 by blast
        then show ?thesis using 2(1) by (simp add: tO)
      qed
    qed
    show ?thesis
      using pre'' post'' out' r' mono' p1' p2' by blast
  qed
qed

lemma fread_ids_subset: "fread_ids FRead bbs \<subseteq> iid ` set (concat bbs)"
  by (auto simp: fread_ids_def)

lemma fread_ids_take_Suc:
  "k < length bbs \<Longrightarrow>
   fread_ids FRead (take (Suc k) bbs) = fread_ids FRead (take k bbs) \<union> fread_ids FRead [bbs ! k]"
  by (auto simp: fread_ids_def take_Suc_conv_app_nth)

lemma concat_split:
  "k < length bbs \<Longrightarrow> concat bbs = concat (take k bbs) @ bbs ! k @ concat (drop (Suc k) bbs)"
proof -
  assume "k < length bbs"
  then have "bbs = take k bbs @ bbs ! k # drop (Suc k) bbs" by (rule id_take_nth_drop)
  then have "concat bbs = concat (take k bbs @ bbs ! k # drop (Suc k) bbs)" by simp
  then show ?thesis by simp
qed

lemma ei_block_rerouted:
  assumes m: "0 < MAP_SIZE e" and k: "k < length bbs0" and len: "length bbs = length bbs0"
    and dist: "distinct (map iid (concat bbs0))"
    and fresh: "\<forall>i \<in> set (concat bbs0). iid i < N0"
    and A: "list_all2 (spec_rerouted (MAP_SIZE e) FRead \<sigma>) (take k bbs0) (take k bbs)"
    and B: "drop k bbs = map (map (redirect_uses \<sigma>)) (drop k bbs0)"
    and C: "N0 \<le> next_iid st"
    and D: "\<forall>n. \<sigma> n \<noteq> n \<longrightarrow> n \<in> fread_ids FRead (take k bbs0)"
    and E: "\<forall>n \<in> fread_ids FRead (take k bbs0). N0 \<le> \<sigma> n"
    and run: "ei_block e FRead k (st, bbs) = (st', bbs')"
  shows "\<exists>\<sigma>'. length bbs' = length bbs0
       \<and> list_all2 (spec_rerouted (MAP_SIZE e) FRead \<sigma>') (take (Suc k) bbs0) (take (Suc k) bbs')
       \<and> drop (Suc k) bbs' = map (map (redirect_uses \<sigma>')) (drop (Suc k) bbs0)
       \<and> N0 \<le> next_iid st'
       \<and> (\<forall>n. \<sigma>' n \<noteq> n \<longrightarrow> n \<in> fread_ids FRead (take (Suc k) bbs0))
       \<and> (\<forall>n \<in> fread_ids FRead (take (Suc k) bbs0). N0 \<le> \<sigma>' n)"
proof -
  define cur0 where "cur0 = bbs0 ! k"
  obtain ctx1 BB' where
    w0: "ei_while e FRead (st, take k bbs, drop (Suc k) bbs) [] (bbs ! k) = (ctx1, BB')"
    by (cases "ei_while e FRead (st, take k bbs, drop (Suc k) bbs) [] (bbs ! k)")
  obtain st1 pre' post' where "ctx1 = (st1, pre', post')"
    by (cases ctx1)
  with w0 have
    w: "ei_while e FRead (st, take k bbs, drop (Suc k) bbs) [] (bbs ! k) = ((st1, pre', post'), BB')"
    by simp
  have bbs': "bbs' = pre' @ [BB'] @ post'" and st': "st' = st1"
    using run w by (simp_all add: ei_block_def)
  have split0: "drop k bbs0 = cur0 # drop (Suc k) bbs0"
    using k by (simp add: Cons_nth_drop_Suc cur0_def)
  have split: "drop k bbs = bbs ! k # drop (Suc k) bbs"
    using k len by (simp add: Cons_nth_drop_Suc)
  have cur: "bbs ! k = map (redirect_uses \<sigma>) cur0"
    and rest: "drop (Suc k) bbs = map (map (redirect_uses \<sigma>)) (drop (Suc k) bbs0)"
    using B unfolding split0 split by simp_all
  have cat: "concat bbs0 = concat (take k bbs0) @ cur0 @ concat (drop (Suc k) bbs0)"
    using concat_split [OF k] by (simp add: cur0_def)
  have dd: "distinct (map iid (concat (take k bbs0))
                       @ (map iid cur0 @ map iid (concat (drop (Suc k) bbs0))))"
    using dist unfolding cat by simp
  then have dcur: "distinct (map iid cur0)" by simp
  have "iid ` set (concat (take k bbs0))
          \<inter> (iid ` set cur0 \<union> iid ` set (concat (drop (Suc k) bbs0))) = {}"
    using dd by (simp only: distinct_append set_map set_append)
  then have disj: "iid ` set (concat (take k bbs0)) \<inter> iid ` set cur0 = {}"
    by blast
  have fcur: "\<forall>i \<in> set cur0. iid i < N0"
    using fresh unfolding cat by auto
  have d1: "distinct (map iid (bbs ! k))" using dcur by (simp add: cur comp_def)
  have f1: "\<forall>i \<in> set (bbs ! k). iid i < next_iid st" using fcur C by (auto simp: cur)
  from ei_while_rerouted [OF m w d1 f1]
  obtain \<tau> where pre': "pre' = map (map (redirect_uses \<tau>)) (take k bbs)"
    and post': "post' = map (map (redirect_uses \<tau>)) (drop (Suc k) bbs)"
    and r: "spec_rerouted (MAP_SIZE e) FRead \<tau> (bbs ! k) BB'"
    and mono: "next_iid st \<le> next_iid st1"
    and p1: "\<forall>n. \<tau> n \<noteq> n \<longrightarrow> n \<in> fread_ids FRead [cur0]"
    and p2: "\<forall>n \<in> fread_ids FRead [cur0]. next_iid st \<le> \<tau> n"
    by (auto simp: cur)
  define \<sigma>' where "\<sigma>' = \<tau> \<circ> \<sigma>"
  have comp: "\<And>i. redirect_uses \<tau> (redirect_uses \<sigma> i) = redirect_uses \<sigma>' i"
    by (simp add: \<sigma>'_def)
  have cur_ids: "fread_ids FRead [cur0] \<subseteq> iid ` set cur0"
    using fread_ids_subset [of FRead "[cur0]"] by simp
  have cur_small: "\<forall>n \<in> fread_ids FRead [cur0]. n < N0"
    using cur_ids fcur by auto
  have tau_big: "\<And>n. N0 \<le> n \<Longrightarrow> \<tau> n = n"
    using p1 cur_small by (metis not_le)
  have sig_cur: "\<And>n. n \<in> iid ` set cur0 \<Longrightarrow> \<sigma> n = n"
    using D disj fread_ids_subset [of FRead "take k bbs0"] by blast
  have lp: "length pre' = k" using pre' k len by simp
  have a1: "list_all2 (spec_rerouted (MAP_SIZE e) FRead \<sigma>') (take k bbs0) pre'"
    unfolding pre' list_all2_map2
  proof (rule list.rel_mono_strong [OF A])
    fix xs out
    assume x: "spec_rerouted (MAP_SIZE e) FRead \<sigma> xs out" and xs: "xs \<in> set (take k bbs0)"
    have "\<forall>i \<in> set xs. is_fread_call FRead i \<longrightarrow> \<tau> (\<sigma> (iid i)) = \<sigma> (iid i)"
    proof (intro ballI impI)
      fix i assume "i \<in> set xs" and "is_fread_call FRead i"
      then have "iid i \<in> fread_ids FRead (take k bbs0)"
        using xs by (auto simp: fread_ids_def)
      then have "N0 \<le> \<sigma> (iid i)" using E by blast
      then show "\<tau> (\<sigma> (iid i)) = \<sigma> (iid i)" by (rule tau_big)
    qed
    with x show "spec_rerouted (MAP_SIZE e) FRead \<sigma>' xs (map (redirect_uses \<tau>) out)"
      unfolding \<sigma>'_def by (rule rerouted_redirect_out)
  qed
  have a2: "spec_rerouted (MAP_SIZE e) FRead \<sigma>' cur0 BB'"
    unfolding \<sigma>'_def
  proof (rule rerouted_redirect_in)
    show "spec_rerouted (MAP_SIZE e) FRead \<tau> (map (redirect_uses \<sigma>) cur0) BB'"
      using r by (simp add: cur)
    show "\<forall>i \<in> set cur0. is_fread_call FRead i \<longrightarrow> \<sigma> (iid i) = iid i"
      using sig_cur by simp
  qed
  have t0: "take (Suc k) bbs0 = take k bbs0 @ [cur0]"
    using k by (simp add: take_Suc_conv_app_nth cur0_def)
  have t: "take (Suc k) bbs' = pre' @ [BB']" using lp by (simp add: bbs')
  have d: "drop (Suc k) bbs' = post'" using lp by (simp add: bbs')
  have l: "length bbs' = length bbs0"
    using lp post' k len by (simp add: bbs')
  have A': "list_all2 (spec_rerouted (MAP_SIZE e) FRead \<sigma>') (take (Suc k) bbs0) (take (Suc k) bbs')"
    unfolding t0 t using a1 a2 by (simp add: list_all2_appendI)
  have B': "drop (Suc k) bbs' = map (map (redirect_uses \<sigma>')) (drop (Suc k) bbs0)"
    unfolding d post' rest by (simp add: comp comp_def del: redirect_uses_comp)
  have C': "N0 \<le> next_iid st'" using C mono st' by simp
  have ids: "fread_ids FRead (take (Suc k) bbs0)
               = fread_ids FRead (take k bbs0) \<union> fread_ids FRead [cur0]"
    using fread_ids_take_Suc [OF k] by (simp add: cur0_def)
  have D': "\<forall>n. \<sigma>' n \<noteq> n \<longrightarrow> n \<in> fread_ids FRead (take (Suc k) bbs0)"
  proof (intro allI impI)
    fix n assume ne: "\<sigma>' n \<noteq> n"
    show "n \<in> fread_ids FRead (take (Suc k) bbs0)"
    proof (cases "\<sigma> n = n")
      case True
      then have "\<tau> n \<noteq> n" using ne by (simp add: \<sigma>'_def)
      then show ?thesis using p1 ids by blast
    next
      case False
      then show ?thesis using D ids by blast
    qed
  qed
  have E': "\<forall>n \<in> fread_ids FRead (take (Suc k) bbs0). N0 \<le> \<sigma>' n"
  proof
    fix n assume "n \<in> fread_ids FRead (take (Suc k) bbs0)"
    then consider "n \<in> fread_ids FRead (take k bbs0)" | "n \<in> fread_ids FRead [cur0]"
      unfolding ids by blast
    then show "N0 \<le> \<sigma>' n"
    proof cases
      case 1
      then have "N0 \<le> \<sigma> n" using E by blast
      then show ?thesis using tau_big by (simp add: \<sigma>'_def)
    next
      case 2
      then have "\<sigma> n = n" using sig_cur cur_ids by blast
      then have "\<sigma>' n = \<tau> n" by (simp add: \<sigma>'_def)
      then show ?thesis using p2 2 C by fastforce
    qed
  qed
  show ?thesis using l A' B' C' D' E' by blast
qed

lemma ei_fold_rerouted:
  assumes m: "0 < MAP_SIZE e"
    and dist: "distinct (map iid (concat bbs0))"
    and fresh: "\<forall>i \<in> set (concat bbs0). iid i < N0"
  shows "k \<le> length bbs0 \<Longrightarrow> length bbs = length bbs0 \<Longrightarrow>
    list_all2 (spec_rerouted (MAP_SIZE e) FRead \<sigma>) (take k bbs0) (take k bbs) \<Longrightarrow>
    drop k bbs = map (map (redirect_uses \<sigma>)) (drop k bbs0) \<Longrightarrow>
    N0 \<le> next_iid st \<Longrightarrow>
    (\<forall>n. \<sigma> n \<noteq> n \<longrightarrow> n \<in> fread_ids FRead (take k bbs0)) \<Longrightarrow>
    (\<forall>n \<in> fread_ids FRead (take k bbs0). N0 \<le> \<sigma> n) \<Longrightarrow>
    fold (ei_block e FRead) [k..<length bbs0] (st, bbs) = (st', bbs') \<Longrightarrow>
    \<exists>\<sigma>'. list_all2 (spec_rerouted (MAP_SIZE e) FRead \<sigma>') bbs0 bbs'
       \<and> N0 \<le> next_iid st'
       \<and> (\<forall>n. \<sigma>' n \<noteq> n \<longrightarrow> n \<in> fread_ids FRead bbs0)
       \<and> (\<forall>n \<in> fread_ids FRead bbs0. N0 \<le> \<sigma>' n)"
proof (induction "length bbs0 - k" arbitrary: k st bbs \<sigma>)
  case 0
  then have "k = length bbs0" "bbs' = bbs" "st' = st" by simp_all
  then show ?case using 0 by auto
next
  case (Suc d)
  then have k: "k < length bbs0" by simp
  obtain st1 bbs1 where s1: "ei_block e FRead k (st, bbs) = (st1, bbs1)"
    by (cases "ei_block e FRead k (st, bbs)")
  from ei_block_rerouted [OF m k Suc.prems(2) dist fresh Suc.prems(3) Suc.prems(4)
      Suc.prems(5) Suc.prems(6) Suc.prems(7) s1]
  obtain \<sigma>1 where l: "length bbs1 = length bbs0"
    and a: "list_all2 (spec_rerouted (MAP_SIZE e) FRead \<sigma>1) (take (Suc k) bbs0) (take (Suc k) bbs1)"
    and b: "drop (Suc k) bbs1 = map (map (redirect_uses \<sigma>1)) (drop (Suc k) bbs0)"
    and c: "N0 \<le> next_iid st1"
    and d1: "\<forall>n. \<sigma>1 n \<noteq> n \<longrightarrow> n \<in> fread_ids FRead (take (Suc k) bbs0)"
    and e1: "\<forall>n \<in> fread_ids FRead (take (Suc k) bbs0). N0 \<le> \<sigma>1 n"
    by blast
  have f: "fold (ei_block e FRead) [Suc k..<length bbs0] (st1, bbs1) = (st', bbs')"
    using Suc.prems(8) k s1 by (simp add: upt_conv_Cons)
  have d: "d = length bbs0 - Suc k" using Suc.hyps(2) by simp
  have sk: "Suc k \<le> length bbs0" using k by simp
  show ?case
    by (rule Suc.hyps(1) [OF d sk l a b c d1 e1 f])
qed

lemma ei_function_rerouted:
  assumes m: "0 < MAP_SIZE e" and run: "ei_function e FRead st F = (F', st')"
    and dist: "distinct (map iid (concat (blocks F)))"
    and fresh: "\<forall>i \<in> set (concat (blocks F)). iid i < N0" and N0: "N0 \<le> next_iid st"
  shows "fname F' = fname F \<and> N0 \<le> next_iid st'
    \<and> (\<exists>\<sigma>. list_all2 (spec_rerouted (MAP_SIZE e) FRead \<sigma>) (blocks F) (blocks F')
          \<and> (\<forall>n. \<sigma> n \<noteq> n \<longrightarrow> n \<in> fread_ids FRead (blocks F))
          \<and> (\<forall>n \<in> fread_ids FRead (blocks F). N0 \<le> \<sigma> n))"
proof -
  obtain st1 bbs' where
    f: "fold (ei_block e FRead) [0..<length (blocks F)] (st, blocks F) = (st1, bbs')"
    by (cases "fold (ei_block e FRead) [0..<length (blocks F)] (st, blocks F)")
  have F': "blocks F' = bbs'" "st' = st1" "fname F' = fname F"
    using run f by (auto simp: ei_function_def)
  have "\<exists>\<sigma>'. list_all2 (spec_rerouted (MAP_SIZE e) FRead \<sigma>') (blocks F) bbs'
       \<and> N0 \<le> next_iid st1
       \<and> (\<forall>n. \<sigma>' n \<noteq> n \<longrightarrow> n \<in> fread_ids FRead (blocks F))
       \<and> (\<forall>n \<in> fread_ids FRead (blocks F). N0 \<le> \<sigma>' n)"
    by (rule ei_fold_rerouted [OF m dist fresh, of 0 "blocks F" FRead "\<lambda>n. n" st st1 bbs'])
       (simp_all add: N0 f redirect_uses_id_fun fread_ids_def)
  then show ?thesis using F' by auto
qed

lemma ei_functions_rerouted:
  assumes m: "0 < MAP_SIZE e"
  shows "ei_functions e FRead st Fs = (Fs', st') \<Longrightarrow>
    (\<forall>F \<in> set Fs. distinct (map iid (concat (blocks F)))
        \<and> (\<forall>i \<in> set (concat (blocks F)). iid i < N0)) \<Longrightarrow>
    N0 \<le> next_iid st \<Longrightarrow>
    list_all2 (\<lambda>F F'. fname F' = fname F
        \<and> (\<exists>\<sigma>. list_all2 (spec_rerouted (MAP_SIZE e) FRead \<sigma>) (blocks F) (blocks F')
              \<and> (\<forall>n. \<sigma> n \<noteq> n \<longrightarrow> n \<in> fread_ids FRead (blocks F))
              \<and> (\<forall>n \<in> fread_ids FRead (blocks F). N0 \<le> \<sigma> n))) Fs Fs'"
proof (induction Fs arbitrary: st Fs' st')
  case Nil then show ?case by simp
next
  case (Cons F Fs)
  obtain F1 st1 where f: "ei_function e FRead st F = (F1, st1)"
    by (cases "ei_function e FRead st F")
  obtain Fs1 st2 where g: "ei_functions e FRead st1 Fs = (Fs1, st2)"
    by (cases "ei_functions e FRead st1 Fs")
  have Fs': "Fs' = F1 # Fs1" using Cons.prems(1) f g by simp
  have dF: "distinct (map iid (concat (blocks F)))"
    and fF: "\<forall>i \<in> set (concat (blocks F)). iid i < N0"
    and rest: "\<forall>F \<in> set Fs. distinct (map iid (concat (blocks F)))
        \<and> (\<forall>i \<in> set (concat (blocks F)). iid i < N0)"
    using Cons.prems(2) by simp_all
  from ei_function_rerouted [OF m f dF fF Cons.prems(3)]
  have one: "fname F1 = fname F
    \<and> (\<exists>\<sigma>. list_all2 (spec_rerouted (MAP_SIZE e) FRead \<sigma>) (blocks F) (blocks F1)
          \<and> (\<forall>n. \<sigma> n \<noteq> n \<longrightarrow> n \<in> fread_ids FRead (blocks F))
          \<and> (\<forall>n \<in> fread_ids FRead (blocks F). N0 \<le> \<sigma> n))"
    and mono: "N0 \<le> next_iid st1"
    by simp_all
  show ?case
    unfolding Fs' using one Cons.IH [OF g rest mono] by simp
qed

lemma getFunction_cases: "getFunction M n = None \<or> getFunction M n = Some n"
proof (cases "find (\<lambda>F. fname F = n) (mfunctions M)")
  case None then show ?thesis by (simp add: getFunction_def)
next
  case (Some F)
  then have "fname F = n" by (auto simp: find_Some_iff)
  then show ?thesis using Some by (simp add: getFunction_def)
qed

lemma all_operands_iff:
  "v \<in> all_operands bbs \<longleftrightarrow> (\<exists>B \<in> set bbs. \<exists>i \<in> set B. v \<in> set (operands i))"
  by (auto simp: all_operands_def)



end
